theory Spec2Isabelle
  imports Main "HOL-Library.Word"
begin

section \<open>The machine: bytes, sizes, pointers, the C library\<close>

text \<open>
  \<^verbatim>\<open>iconv.cc\<close> is C-style code over raw memory. A \<^verbatim>\<open>char\<close> is a byte, a
  \<^verbatim>\<open>size_t\<close> and a \<^verbatim>\<open>char*\<close> are 64-bit words (\<open>+\<close>, \<open>-\<close> and \<open>*\<close> wrap
  around, as unsigned arithmetic does in C), and the null pointer is the word \<open>0\<close>.
  The pointer \<^verbatim>\<open>input\<close> is only read, so it is modelled by the bytes it points to.
\<close>

type_synonym byte = "8 word"
type_synonym size_t = "64 word"
type_synonym ptr = "64 word"
type_synonym iconv_t = "64 word"

text \<open>
  The values of \<^verbatim>\<open>errno.h\<close> the code compares \<^verbatim>\<open>errno\<close> with (their Linux numbers;
  the code only needs them to be distinct).
\<close>

definition E2BIG :: int where "E2BIG = 7"
definition ENOMEM :: int where "ENOMEM = 12"
definition EINVAL :: int where "EINVAL = 22"
definition EILSEQ :: int where "EILSEQ = 84"

text \<open>
  Every call that leaves the translation unit is recorded, with its arguments and the
  value it returned, in the order the calls are made; a call of \<^verbatim>\<open>iconv\<close> also with
  the value of \<^verbatim>\<open>errno\<close> it leaves behind.
\<close>

datatype call =
    Realloc ptr size_t ptr
  | Free ptr
  | Iconv "(byte list \<times> size_t) option" "(ptr \<times> size_t) option" size_t int
  | Iconv_open string string iconv_t

text \<open>
  The world outside the code: the flat memory, the blocks the allocator has handed out
  (base address and size), \<^verbatim>\<open>errno\<close>, the state behind each conversion descriptor
  (of a type \<open>'cd\<close> the code knows nothing about), and the calls made so far.
\<close>

record 'cd world =
  mem :: "ptr \<Rightarrow> byte"
  live :: "ptr \<rightharpoonup> size_t"
  errno :: int
  descr :: "iconv_t \<Rightarrow> 'cd"
  calls :: "call list"

text \<open>
  What the primitive \<^verbatim>\<open>iconv\<close> decides in one call: how many input bytes it consumes,
  the bytes it stores at \<^verbatim>\<open>*outbuf\<close>, its return value (\<open>-1\<close>, that is
  \<^verbatim>\<open>(size_t) -1\<close>, for a failure), the \<^verbatim>\<open>errno\<close> of a failure, and its next state.
\<close>

record 'cd iconv_reply =
  nread :: nat
  written :: "byte list"
  ret :: size_t
  err :: int
  next_cd :: 'cd

text \<open>
  The behaviour the code does not control is a parameter of every function:
  \<^item> \<open>env_realloc w p n\<close> is the pointer \<^verbatim>\<open>realloc(p, n)\<close> returns in world \<open>w\<close>
    (null when the allocation fails);
  \<^item> \<open>env_realloc_zero_frees\<close> says what the library does with \<^verbatim>\<open>realloc(p, 0)\<close> for a
    block \<open>p\<close>, which ISO C leaves to it: release the block and return null, as glibc
    does, or treat the request like one for any other size;
  \<^item> \<open>env_iconv c ins outs\<close> is the reply of \<^verbatim>\<open>iconv\<close> in descriptor state \<open>c\<close>, given
    the readable input bytes (\<open>None\<close> for a null \<^verbatim>\<open>inbuf\<close>) and the free output space
    (\<open>None\<close> for a null \<^verbatim>\<open>outbuf\<close>);
  \<^item> \<open>env_iconv_open to from\<close> is what \<^verbatim>\<open>iconv_open(to, from)\<close> returns: the descriptor
    (\<open>-1\<close> for a failure), the \<^verbatim>\<open>errno\<close> of a failure, and the descriptor's first state;
  \<^item> \<open>env_Utf8Value s\<close> is the byte sequence V8's \<^verbatim>\<open>String::Utf8Value\<close> holds for the
    string \<open>s\<close> (a list of UTF-16 code units).
\<close>

record 'cd env =
  env_realloc :: "'cd world \<Rightarrow> ptr \<Rightarrow> size_t \<Rightarrow> ptr"
  env_realloc_zero_frees :: bool
  env_iconv :: "'cd \<Rightarrow> byte list option \<Rightarrow> size_t option \<Rightarrow> 'cd iconv_reply"
  env_iconv_open :: "string \<Rightarrow> string \<Rightarrow> iconv_t \<times> int \<times> 'cd"
  env_Utf8Value :: "16 word list \<Rightarrow> byte list"

text \<open>
  \<^verbatim>\<open>realloc(p, n)\<close>.
  \<^item> For a block \<open>p\<close> and the size 0, a library that frees on size zero releases the
    block and returns null; \<^verbatim>\<open>errno\<close> is left alone.
  \<^item> Otherwise a null return is a failure: the old block stays allocated and unchanged
    and \<^verbatim>\<open>errno\<close> is \<^verbatim>\<open>ENOMEM\<close>. A request for \<open>2 ^ 63\<close> bytes or more always fails:
    it is more than \<^verbatim>\<open>PTRDIFF_MAX\<close>, which glibc refuses, and more than the address
    space of any 64-bit machine.
  \<^item> Otherwise the old block is released, the new block has size \<open>n\<close>, and its first
    \<open>min old n\<close> bytes are those of the old block; \<^verbatim>\<open>realloc(NULL, n)\<close> is
    \<^verbatim>\<open>malloc(n)\<close>.
\<close>

definition realloc :: "'cd env \<Rightarrow> 'cd world \<Rightarrow> ptr \<Rightarrow> size_t \<Rightarrow> ptr \<times> 'cd world" where
  "realloc E w p n =
     (if n = 0 \<and> p \<noteq> 0 \<and> env_realloc_zero_frees E
      then (0, w\<lparr>live := (live w)(p := None), calls := calls w @ [Realloc p n 0]\<rparr>)
      else
        let q = (if 2 ^ 63 \<le> unat n then 0 else env_realloc E w p n);
            w1 = w\<lparr>calls := calls w @ [Realloc p n q]\<rparr>
        in if q = 0 then (0, w1\<lparr>errno := ENOMEM\<rparr>)
           else
             let old = (case live w p of None \<Rightarrow> 0 | Some k \<Rightarrow> k);
                 keep = min old n
             in (q, w1\<lparr>mem := (\<lambda>a. if a - q < keep then mem w (p + (a - q)) else mem w a),
                       live := ((live w)(p := None))(q \<mapsto> n)\<rparr>))"

text \<open>\<^verbatim>\<open>free(p)\<close>: releases the block at \<open>p\<close>; \<^verbatim>\<open>free(NULL)\<close> does nothing. It leaves
  \<^verbatim>\<open>errno\<close> alone.\<close>

definition free :: "'cd world \<Rightarrow> ptr \<Rightarrow> 'cd world" where
  "free w p =
     (let w1 = w\<lparr>calls := calls w @ [Free p]\<rparr>
      in if p = 0 then w1 else w1\<lparr>live := (live w)(p := None)\<rparr>)"

section \<open>The output buffer and \<^verbatim>\<open>grow\<close>\<close>

text \<open>
  The four objects \<^verbatim>\<open>grow\<close> reaches through its pointer arguments: \<^verbatim>\<open>*output\<close> (field \<open>output'\<close>, start
  of the storage), \<^verbatim>\<open>*outlen\<close> (its capacity), \<^verbatim>\<open>*outbuf\<close> (the write cursor) and
  \<^verbatim>\<open>*outbufsz\<close> (the space the primitive may still fill).
\<close>

record outbuffer =
  output' :: ptr
  outlen :: size_t
  outbuf :: ptr
  outbufsz :: size_t

text \<open>
  \<^verbatim>\<open>int grow(char** output, size_t* outlen, char** outbuf, size_t* outbufsz)\<close>,
  lines 41 to 57. It returns 1 with the four objects updated, or 0 with none of them
  touched.
\<close>

definition grow ::
  "'cd env \<Rightarrow> 'cd world \<Rightarrow> 'a outbuffer_scheme \<Rightarrow> int \<times> 'cd world \<times> 'a outbuffer_scheme" where
  "grow E w b =
     (let newlen = (if outlen b \<noteq> 0 then outlen b * 2 else 16);
          (newptr, w1) = realloc E w (output' b) newlen
      in if newptr \<noteq> 0
         then (1, w1, b\<lparr>outbufsz := newlen - outlen b,
                        outbuf := newptr + (outbuf b - output' b),
                        outlen := newlen,
                        output' := newptr\<rparr>)
         else (0, w1, b))"

section \<open>The primitive \<^verbatim>\<open>iconv\<close>\<close>

text \<open>\<open>store m p bs\<close> is the memory \<open>m\<close> with the bytes \<open>bs\<close> written from address \<open>p\<close> on.\<close>

definition store :: "(ptr \<Rightarrow> byte) \<Rightarrow> ptr \<Rightarrow> byte list \<Rightarrow> ptr \<Rightarrow> byte" where
  "store m p bs = (\<lambda>a. if unat (a - p) < length bs then bs ! unat (a - p) else m a)"

text \<open>
  \<^verbatim>\<open>size_t iconv(iconv_t cd, char** inbuf, size_t* inbytesleft, char** outbuf,
  size_t* outbytesleft)\<close> as iconv(3) describes it. A null \<^verbatim>\<open>inbuf\<close> or
  \<^verbatim>\<open>outbuf\<close> is \<open>None\<close>; otherwise the argument is the pair of objects the two pointers
  of that side lead to, and the result holds their new values. The primitive reads at
  most \<^verbatim>\<open>*inbytesleft\<close> bytes and writes at most \<^verbatim>\<open>*outbytesleft\<close> bytes, whatever
  the reply asks for, moves both cursors by what it read and wrote, and sets
  \<^verbatim>\<open>errno\<close> only when it returns \<^verbatim>\<open>(size_t) -1\<close>.
\<close>

definition iconv ::
  "'cd env \<Rightarrow> 'cd world \<Rightarrow> iconv_t \<Rightarrow> (byte list \<times> size_t) option \<Rightarrow> (ptr \<times> size_t) option
     \<Rightarrow> size_t \<times> (byte list \<times> size_t) option \<times> (ptr \<times> size_t) option \<times> 'cd world" where
  "iconv E w iv ins outs =
     (let r = env_iconv E (descr w iv)
                (map_option (\<lambda>(ib, ibsz). take (unat ibsz) ib) ins)
                (map_option snd outs);
          k = (case ins of None \<Rightarrow> 0
               | Some (ib, ibsz) \<Rightarrow> min (nread r) (min (unat ibsz) (length ib)));
          ws = (case outs of None \<Rightarrow> []
                | Some (ob, obsz) \<Rightarrow> take (unat obsz) (written r));
          w1 = w\<lparr>mem := (case outs of None \<Rightarrow> mem w
                          | Some (ob, obsz) \<Rightarrow> store (mem w) ob ws),
                 descr := (descr w)(iv := next_cd r),
                 errno := (if ret r = - 1 then err r else errno w),
                 calls := calls w @ [Iconv ins outs (ret r)
                                       (if ret r = - 1 then err r else errno w)]\<rparr>
      in (ret r,
          map_option (\<lambda>(ib, ibsz). (drop k ib, ibsz - of_nat k)) ins,
          map_option (\<lambda>(ob, obsz).
             (ob + of_nat (length ws), obsz - of_nat (length ws))) outs,
          w1))"

section \<open>\<^verbatim>\<open>convert\<close>\<close>

text \<open>
  The variables of \<^verbatim>\<open>convert\<close>: the four of the output buffer, the read cursor
  \<^verbatim>\<open>inbuf\<close> (the bytes from the cursor on), \<^verbatim>\<open>inbufsz\<close> and \<^verbatim>\<open>rv\<close>.
\<close>

record convert_vars = outbuffer +
  inbuf :: "byte list"
  inbufsz :: size_t
  rv :: size_t

text \<open>What \<^verbatim>\<open>iconv\<close> stores through \<^verbatim>\<open>&inbuf, &inbufsz\<close> and \<^verbatim>\<open>&outbuf, &outbufsz\<close>.\<close>

definition set_in :: "(byte list \<times> size_t) option \<Rightarrow> convert_vars \<Rightarrow> convert_vars" where
  "set_in ins s = (case ins of None \<Rightarrow> s | Some (p, n) \<Rightarrow> s\<lparr>inbuf := p, inbufsz := n\<rparr>)"

definition set_out :: "(ptr \<times> size_t) option \<Rightarrow> convert_vars \<Rightarrow> convert_vars" where
  "set_out outs s = (case outs of None \<Rightarrow> s | Some (p, n) \<Rightarrow> s\<lparr>outbuf := p, outbufsz := n\<rparr>)"

text \<open>
  Lines 79 to 87, the loop
  \<^verbatim>\<open>do { if (grow(...)) rv = iconv(iv, &inbuf, &inbufsz, &outbuf, &outbufsz);
  else goto error; } while (rv == (size_t) -1 && errno == E2BIG);\<close>
  The result is \<open>None\<close> when the loop never ends; otherwise \<open>False\<close> stands for
  \<^verbatim>\<open>goto error\<close> and \<open>True\<close> for leaving the loop at its condition.
\<close>

partial_function (option) convert_loop ::
  "'cd env \<Rightarrow> iconv_t \<Rightarrow> 'cd world \<Rightarrow> convert_vars \<Rightarrow> (bool \<times> 'cd world \<times> convert_vars) option" where
  "convert_loop E iv w s =
     (case grow E w s of (ok, w1, s1) \<Rightarrow>
        if ok \<noteq> 0 then
          (case iconv E w1 iv (Some (inbuf s1, inbufsz s1)) (Some (outbuf s1, outbufsz s1)) of
             (r, ins, outs, w2) \<Rightarrow>
               let s2 = (set_out outs (set_in ins s1))\<lparr>rv := r\<rparr>
               in if r = - 1 \<and> errno w2 = E2BIG then convert_loop E iv w2 s2
                  else Some (True, w2, s2))
        else Some (False, w1, s1))"

text \<open>
  Lines 93 to 106, the shift sequence: \<open>False\<close> stands for \<^verbatim>\<open>goto error\<close>, \<open>True\<close>
  for reaching line 108.
\<close>

definition flush ::
  "'cd env \<Rightarrow> iconv_t \<Rightarrow> 'cd world \<Rightarrow> convert_vars \<Rightarrow> bool \<times> 'cd world \<times> convert_vars" where
  "flush E iv w s =
     (case iconv E w iv None (Some (outbuf s, outbufsz s)) of (r, ins, outs, w1) \<Rightarrow>
        let s1 = (set_out outs s)\<lparr>rv := r\<rparr>
        in if r = - 1 then
             if errno w1 \<noteq> E2BIG then (False, w1, s1)
             else
               (case grow E w1 s1 of (ok, w2, s2) \<Rightarrow>
                  if ok = 0 then (False, w2, s2)
                  else
                    (case iconv E w2 iv None (Some (outbuf s2, outbufsz s2)) of
                       (r2, ins2, outs2, w3) \<Rightarrow>
                         if r2 = - 1 then (False, w3, set_out outs2 s2)
                         else (True, w3, set_out outs2 s2)))
           else (True, w1, s1))"

text \<open>
  Lines 108 to 117: store the length, hand the unused tail back, \<^verbatim>\<open>return 1\<close>.
\<close>

definition finish :: "'cd env \<Rightarrow> 'cd world \<Rightarrow> convert_vars \<Rightarrow> int \<times> 'cd world \<times> convert_vars" where
  "finish E w s =
     (let s1 = s\<lparr>outlen := outbuf s - output' s\<rparr>;
          (p, w1) = realloc E w (output' s1) (outlen s1);
          s2 = s1\<lparr>outbuf := p\<rparr>
      in if p \<noteq> 0 then (1, w1, s2\<lparr>output' := p\<rparr>) else (1, w1, s2))"

text \<open>Lines 119 to 123, the label \<^verbatim>\<open>error\<close>.\<close>

definition error_exit :: "'cd world \<Rightarrow> convert_vars \<Rightarrow> int \<times> 'cd world \<times> convert_vars" where
  "error_exit w s = (0, free w (output' s), s\<lparr>output' := 0, outlen := 0\<rparr>)"

text \<open>
  \<^verbatim>\<open>int convert(iconv_t iv, char* input, size_t inlen, char** output, size_t* outlen)\<close>,
  lines 62 to 124. \<open>init_vars\<close> is the state after lines 69 to 73 (\<^verbatim>\<open>rv\<close> is not
  initialised in the source and not read before it is assigned). The caller sees the
  returned \<^verbatim>\<open>int\<close> and, in the variables, the fields \<open>output'\<close> and \<open>outlen\<close>.
\<close>

definition init_vars :: "byte list \<Rightarrow> size_t \<Rightarrow> convert_vars" where
  "init_vars input inlen =
     \<lparr>output' = 0, outlen = 0, outbuf = 0, outbufsz = 0, inbuf = input, inbufsz = inlen, rv = 0\<rparr>"

definition convert ::
  "'cd env \<Rightarrow> 'cd world \<Rightarrow> iconv_t \<Rightarrow> byte list \<Rightarrow> size_t \<Rightarrow> (int \<times> 'cd world \<times> convert_vars) option" where
  "convert E w iv input inlen =
     (let s0 = init_vars input inlen;
          (r0, ins0, outs0, w0) = iconv E w iv None None
      in case convert_loop E iv w0 s0 of
           None \<Rightarrow> None
         | Some (looped, w1, s1) \<Rightarrow>
             if \<not> looped then Some (error_exit w1 s1)
             else if rv s1 = - 1 then Some (error_exit w1 s1)
             else (case flush E iv w1 s1 of (ok, w2, s2) \<Rightarrow>
                     if ok then Some (finish E w2 s2) else Some (error_exit w2 s2)))"

section \<open>The class \<^verbatim>\<open>Iconv\<close>\<close>

text \<open>
  An \<^verbatim>\<open>Iconv\<close> object holds the descriptor \<^verbatim>\<open>conv_\<close> (field \<open>conv'\<close>). A method returns a value to
  JavaScript (\<open>Inr\<close>) or throws (\<open>Inl\<close>); \<^verbatim>\<open>ErrnoException(errorno, syscall, msg)\<close>
  is node's exception, with the empty message when the call gives none.
\<close>

record Iconv =
  conv' :: iconv_t

datatype js_exception = ErrnoException int string string

datatype js_value = Buffer ptr size_t | Undefined

text \<open>
  \<^verbatim>\<open>void FreeMemory(char *data, void *hint)\<close>, lines 125 to 128: the callback a
  \<^verbatim>\<open>Buffer\<close> made by \<^verbatim>\<open>Buffer::New(output, outlen, FreeMemory, 0)\<close> runs on its storage
  when the garbage collector disposes of it.
\<close>

definition FreeMemory :: "'cd world \<Rightarrow> ptr \<Rightarrow> 'cd world" where
  "FreeMemory w data = free w data"

text \<open>
  \<^verbatim>\<open>Handle<Value> Iconv::Convert(char* input, size_t inlen)\<close>, lines 132 to 155.
  (\<^verbatim>\<open>V8::LowMemoryNotification()\<close> only hints the garbage collector and is left out.)
  The value \<open>Buffer p n\<close> is the \<^verbatim>\<open>Buffer\<close> over the \<open>n\<close> bytes at \<open>p\<close>, with
  \<^verbatim>\<open>FreeMemory\<close> as its callback.
\<close>

definition Iconv_Convert ::
  "'cd env \<Rightarrow> 'cd world \<Rightarrow> Iconv \<Rightarrow> byte list \<Rightarrow> size_t
     \<Rightarrow> ((js_exception + js_value) \<times> 'cd world) option" where
  "Iconv_Convert E w self input inlen =
     (case convert E w (conv' self) input inlen of
        None \<Rightarrow> None
      | Some (rc, w1, s) \<Rightarrow>
          if rc \<noteq> 0 then Some (Inr (Buffer (output' s) (outlen s)), w1)
          else if errno w1 = EINVAL then
            Some (Inl (ErrnoException EINVAL ''iconv'' ''Incomplete character sequence.''), w1)
          else if errno w1 = EILSEQ then
            Some (Inl (ErrnoException (errno w1) ''iconv'' ''Illegal character sequence.''), w1)
          else if errno w1 = ENOMEM then
            Some (Inl (ErrnoException (errno w1) ''iconv'' ''Out of memory.''), w1)
          else Some (Inl (ErrnoException (errno w1) ''iconv'' []), w1))"

text \<open>
  The argument of the JavaScript method \<^verbatim>\<open>convert\<close>: a string (its UTF-16 code
  units), a \<^verbatim>\<open>Buffer\<close> object (the bytes at \<^verbatim>\<open>Buffer::Data\<close>, of which there are
  \<^verbatim>\<open>Buffer::Length\<close>), another object, or anything else.
\<close>

datatype js_arg = JsString "16 word list" | JsBuffer "byte list" | JsObject | JsOther

text \<open>\<^verbatim>\<open>Handle<Value> Iconv::Convert(const Arguments& args)\<close>, lines 157 to 177.\<close>

definition Iconv_Convert_args ::
  "'cd env \<Rightarrow> 'cd world \<Rightarrow> Iconv \<Rightarrow> js_arg \<Rightarrow> ((js_exception + js_value) \<times> 'cd world) option" where
  "Iconv_Convert_args E w self arg =
     (case arg of
        JsString str \<Rightarrow>
          (let string = env_Utf8Value E str
           in Iconv_Convert E w self string (of_nat (length string)))
      | JsBuffer data \<Rightarrow> Iconv_Convert E w self data (of_nat (length data))
      | JsObject \<Rightarrow> Some (Inr Undefined, w)
      | JsOther \<Rightarrow> Some (Inr Undefined, w))"

section \<open>\<^verbatim>\<open>fixEncodingName\<close> and \<^verbatim>\<open>Iconv::New\<close>\<close>

text \<open>
  A C string is the list of its characters before the terminating NUL. The functions of
  \<^verbatim>\<open>string.h\<close> and \<^verbatim>\<open>strings.h\<close> the code calls, in the C locale: they return the
  difference of the first two characters that differ (after \<^verbatim>\<open>tolower\<close> for the
  case-insensitive ones), the terminator counting as 0.
\<close>

definition tolower_c :: "char \<Rightarrow> char" where
  "tolower_c c =
     (case map_of (zip ''ABCDEFGHIJKLMNOPQRSTUVWXYZ'' ''abcdefghijklmnopqrstuvwxyz'') c of
        None \<Rightarrow> c
      | Some l \<Rightarrow> l)"

fun strcmp :: "string \<Rightarrow> string \<Rightarrow> int" where
  "strcmp [] [] = 0"
| "strcmp [] (b # bs) = - of_char b"
| "strcmp (a # as) [] = of_char a"
| "strcmp (a # as) (b # bs) = (if a = b then strcmp as bs else of_char a - of_char b)"

fun strcasecmp :: "string \<Rightarrow> string \<Rightarrow> int" where
  "strcasecmp [] [] = 0"
| "strcasecmp [] (b # bs) = - of_char (tolower_c b)"
| "strcasecmp (a # as) [] = of_char (tolower_c a)"
| "strcasecmp (a # as) (b # bs) =
     (if tolower_c a = tolower_c b then strcasecmp as bs
      else of_char (tolower_c a) - of_char (tolower_c b))"

definition strncasecmp :: "string \<Rightarrow> string \<Rightarrow> nat \<Rightarrow> int" where
  "strncasecmp a b n = strcasecmp (take n a) (take n b)"

text \<open>\<open>char_at name i\<close> is \<^verbatim>\<open>name[i]\<close> for \<open>i\<close> up to the terminator.\<close>

definition char_at :: "string \<Rightarrow> nat \<Rightarrow> char" where
  "char_at name i = (if i < length name then name ! i else CHR 0x00)"

text \<open>
  \<^verbatim>\<open>const char* fixEncodingName(const char* name)\<close>, lines 180 to 205. After
  \<^verbatim>\<open>switch (*s++)\<close> the pointer \<^verbatim>\<open>s\<close> is \<^verbatim>\<open>&name[4]\<close>, read only in the four
  cases, where \<^verbatim>\<open>name[3]\<close> is not the terminator; \<^verbatim>\<open>!*s\<close> says that \<^verbatim>\<open>s\<close> is empty.
\<close>

definition fixEncodingName :: "string \<Rightarrow> string" where
  "fixEncodingName name =
     (if strncasecmp name ''UTF'' 3 = 0 \<and> char_at name 3 \<noteq> CHR ''-'' then
        (let c = char_at name 3; s = drop 4 name
         in if c = CHR ''1'' then
              (if strcmp s ''6'' = 0 then ''UTF-16''
               else if strcasecmp s ''6LE'' = 0 then ''UTF-16LE''
               else if strcasecmp s ''6BE'' = 0 then ''UTF-16BE''
               else name)
            else if c = CHR ''3'' then
              (if strcmp s ''2'' = 0 then ''UTF-32''
               else if strcasecmp s ''2LE'' = 0 then ''UTF-32LE''
               else if strcasecmp s ''2BE'' = 0 then ''UTF-32BE''
               else name)
            else if c = CHR ''7'' then (if s = [] then ''UTF-7'' else name)
            else if c = CHR ''8'' then (if s = [] then ''UTF-8'' else name)
            else name)
      else name)"

text \<open>
  \<^verbatim>\<open>iconv_t iconv_open(const char* tocode, const char* fromcode)\<close>: the descriptor, or
  \<^verbatim>\<open>(iconv_t) -1\<close> with \<^verbatim>\<open>errno\<close> set.
\<close>

definition iconv_open :: "'cd env \<Rightarrow> 'cd world \<Rightarrow> string \<Rightarrow> string \<Rightarrow> iconv_t \<times> 'cd world" where
  "iconv_open E w tocode fromcode =
     (case env_iconv_open E tocode fromcode of (h, e, c) \<Rightarrow>
        let w1 = w\<lparr>calls := calls w @ [Iconv_open tocode fromcode h]\<rparr>
        in if h = - 1 then (h, w1\<lparr>errno := e\<rparr>) else (h, w1\<lparr>descr := (descr w)(h := c)\<rparr>))"

text \<open>
  \<^verbatim>\<open>Handle<Value> Iconv::New(const Arguments& args)\<close>, lines 207 to 226, with
  \<^verbatim>\<open>args[0]\<close> and \<^verbatim>\<open>args[1]\<close> as the strings \<^verbatim>\<open>String::AsciiValue\<close> gives. It
  throws, or returns the new object.
\<close>

definition Iconv_New ::
  "'cd env \<Rightarrow> 'cd world \<Rightarrow> string \<Rightarrow> string \<Rightarrow> (js_exception + Iconv) \<times> 'cd world" where
  "Iconv_New E w sourceEncoding targetEncoding =
     (case iconv_open E w (fixEncodingName targetEncoding) (fixEncodingName sourceEncoding) of
        (conv, w1) \<Rightarrow>
          if conv = - 1
          then (Inl (ErrnoException (errno w1) ''iconv_open'' ''Conversion not supported.''), w1)
          else (Inr \<lparr>conv' = conv\<rparr>, w1))"

section \<open>The vocabulary of the specification\<close>

text \<open>
  The storage of a buffer is a block of the allocator of the recorded capacity; before
  the first growth there is no block and the capacity is zero. The logical length of a
  buffer is \<open>outbuf b - output' b\<close>, the distance of the write cursor from the start.
\<close>

definition holds_buffer :: "'cd world \<Rightarrow> 'a outbuffer_scheme \<Rightarrow> bool" where
  "holds_buffer w b =
     (if output' b = 0 then outlen b = 0 else live w (output' b) = Some (outlen b))"

text \<open>
  The error kinds of the specification, and the kind the specification gives to a
  failure signal of the primitive (an \<^verbatim>\<open>errno\<close> value).
\<close>

datatype conv_error =
    UnsupportedConversion int
  | IncompleteSequence
  | IllegalSequence
  | OutOfMemory
  | OtherSystemError int

definition classify :: "int \<Rightarrow> conv_error" where
  "classify e =
     (if e = EINVAL then IncompleteSequence
      else if e = EILSEQ then IllegalSequence
      else if e = ENOMEM then OutOfMemory
      else OtherSystemError e)"

text \<open>
  The kind a caller reads off a thrown exception: the system call and the message name
  it, and the exception carries the system error code.
\<close>

fun surfaced :: "js_exception \<Rightarrow> conv_error" where
  "surfaced (ErrnoException e syscall msg) =
     (if syscall = ''iconv_open'' then UnsupportedConversion e
      else if msg = ''Incomplete character sequence.'' then IncompleteSequence
      else if msg = ''Illegal character sequence.'' then IllegalSequence
      else if msg = ''Out of memory.'' then OutOfMemory
      else OtherSystemError e)"


text \<open>
  A result of the method is the error of the signal \<open>e\<close>: an exception for \<^verbatim>\<open>iconv\<close>
  that carries \<open>e\<close> and that a caller reads as the kind of \<open>e\<close>.
\<close>

definition thrown :: "js_exception + js_value \<Rightarrow> int \<Rightarrow> bool" where
  "thrown res e =
     (case res of
        Inl x \<Rightarrow> (case x of ErrnoException e' syscall msg \<Rightarrow> e' = e \<and> syscall = ''iconv'') \<and>
                 surfaced x = classify e
      | Inr v \<Rightarrow> False)"

text \<open>
  A value returned to JavaScript owns its storage in the world \<open>w\<close>: the pointer of a
  \<^verbatim>\<open>Buffer\<close> is a block of the allocator that holds at least the bytes of the buffer,
  which \<^verbatim>\<open>FreeMemory\<close> may free, once.
\<close>

fun owns :: "'cd world \<Rightarrow> js_value \<Rightarrow> bool" where
  "owns w (Buffer p n) = (case live w p of None \<Rightarrow> False | Some k \<Rightarrow> n \<le> k)"
| "owns w Undefined = True"

text \<open>
  The two ways a conversion that started in the world \<open>w\<close> ends.

  It is aborted in the world \<open>wk\<close>, the storage being at \<open>blk\<close>: \<^verbatim>\<open>convert\<close> returns 0
  after \<^verbatim>\<open>free(blk)\<close>, with a null pointer and the length zero; \<open>blk\<close> is null or a
  block of the allocator, so that nothing is freed twice; no block is left that was not
  there in \<open>w\<close>; and the method throws the error of the signal in \<^verbatim>\<open>errno\<close>.

  It delivers from the world \<open>w2\<close>, the storage being at \<open>blk\<close> and the write cursor at
  \<open>cur\<close>: \<^verbatim>\<open>convert\<close> makes one more call, \<^verbatim>\<open>realloc(blk, cur - blk)\<close>, and returns
  1; the pointer is the one that call returned, or \<open>blk\<close> when it returned null; the
  length is \<open>cur - blk\<close>; the method returns the \<^verbatim>\<open>Buffer\<close> of that pointer and
  length; and, unless the length is zero, that buffer owns its storage (\<open>owns\<close>, below).
\<close>

definition aborted ::
  "'cd env \<Rightarrow> 'cd world \<Rightarrow> iconv_t \<Rightarrow> byte list \<Rightarrow> size_t \<Rightarrow> 'cd world \<Rightarrow> ptr \<Rightarrow> bool" where
  "aborted E w iv input inlen wk blk =
     ((\<exists>s'. convert E w iv input inlen = Some (0, free wk blk, s') \<and>
            output' s' = 0 \<and> outlen s' = 0) \<and>
      (blk = 0 \<or> blk \<in> dom (live wk)) \<and>
      dom (live (free wk blk)) \<subseteq> dom (live w) \<and>
      (\<exists>x. Iconv_Convert E w \<lparr>conv' = iv\<rparr> input inlen = Some (Inl x, free wk blk) \<and>
           thrown (Inl x) (errno wk)))"

definition delivered ::
  "'cd env \<Rightarrow> 'cd world \<Rightarrow> iconv_t \<Rightarrow> byte list \<Rightarrow> size_t \<Rightarrow> 'cd world \<Rightarrow> ptr \<Rightarrow> ptr \<Rightarrow> bool" where
  "delivered E w iv input inlen w2 blk cur =
     (case realloc E w2 blk (cur - blk) of
        (p, w') \<Rightarrow>
          (\<exists>s'. convert E w iv input inlen = Some (1, w', s') \<and>
                output' s' = (if p = 0 then blk else p) \<and> outlen s' = cur - blk) \<and>
          Iconv_Convert E w \<lparr>conv' = iv\<rparr> input inlen =
            Some (Inr (Buffer (if p = 0 then blk else p) (cur - blk)), w') \<and>
          (cur = blk \<or> owns w' (Buffer (if p = 0 then blk else p) (cur - blk))))"

text \<open>The start of the storage after a sequence of calls, when it was \<open>p\<close> before.\<close>

fun current_block :: "ptr \<Rightarrow> call list \<Rightarrow> ptr" where
  "current_block p [] = p"
| "current_block p (Realloc a n q # cs) = current_block (if q \<noteq> 0 then q else p) cs"
| "current_block p (c # cs) = current_block p cs"

text \<open>
  The capacity after a sequence of calls, when it was \<open>cap\<close> before: the size of the
  last successful \<^verbatim>\<open>realloc\<close>. A sequence of calls only grows the buffer when each
  \<^verbatim>\<open>realloc\<close> in it asks for 16 bytes at capacity zero and for twice the capacity
  otherwise.
\<close>

fun capacity_after :: "size_t \<Rightarrow> call list \<Rightarrow> size_t" where
  "capacity_after cap [] = cap"
| "capacity_after cap (Realloc a n q # cs) = capacity_after (if q \<noteq> 0 then n else cap) cs"
| "capacity_after cap (c # cs) = capacity_after cap cs"

fun growth_only :: "size_t \<Rightarrow> call list \<Rightarrow> bool" where
  "growth_only cap [] = True"
| "growth_only cap (Realloc a n q # cs) =
     (n = (if cap \<noteq> 0 then cap * 2 else 16) \<and> growth_only (if q \<noteq> 0 then n else cap) cs)"
| "growth_only cap (c # cs) = growth_only cap cs"

text \<open>
  The conversion buffers: what holds of the world \<open>w\<close> and the buffer \<open>b\<close> at every
  point of a conversion that started in the world \<open>w0\<close>, up to the shrink. The calls made
  since then are recorded after those of \<open>w0\<close> and only grow the buffer; the buffer starts
  where the last successful \<^verbatim>\<open>realloc\<close> among them put it and has the capacity that
  call asked for; the storage is a block of that capacity; there is no storage yet, or
  the capacity is at least 16, and it is less than \<open>2 ^ 63\<close>; the logical length, which is
  the offset of the write cursor, and the space the primitive may fill after it are
  together at most the capacity; and the only block that was not there at the start is
  the buffer's.
\<close>

definition tracks :: "'cd world \<Rightarrow> 'cd world \<Rightarrow> 'a outbuffer_scheme \<Rightarrow> bool" where
  "tracks w0 w b =
     (\<exists>tl. calls w = calls w0 @ tl \<and> growth_only 0 tl \<and>
           output' b = current_block 0 tl \<and> outlen b = capacity_after 0 tl \<and>
           holds_buffer w b \<and>
           (output' b = 0 \<or> 16 \<le> unat (outlen b)) \<and> unat (outlen b) < 2 ^ 63 \<and>
           unat (outbuf b - output' b) + unat (outbufsz b) \<le> unat (outlen b) \<and>
           dom (live w) \<subseteq> (if output' b = 0 then dom (live w0)
                             else insert (output' b) (dom (live w0))))"

text \<open>
  The aliases the specification names, each with its canonical form, and the lookup of
  a name among them without regard to the case of letters.
\<close>

definition utf_aliases :: "(string \<times> string) list" where
  "utf_aliases =
     [(''UTF16'', ''UTF-16''), (''UTF16LE'', ''UTF-16LE''), (''UTF16BE'', ''UTF-16BE''),
      (''UTF32'', ''UTF-32''), (''UTF32LE'', ''UTF-32LE''), (''UTF32BE'', ''UTF-32BE''),
      (''UTF7'', ''UTF-7''), (''UTF8'', ''UTF-8'')]"

definition same_nocase :: "string \<Rightarrow> string \<Rightarrow> bool" where
  "same_nocase a b = (map tolower_c a = map tolower_c b)"

definition canonical :: "string \<Rightarrow> string" where
  "canonical name =
     (case find (\<lambda>(alias, canon). same_nocase name alias) utf_aliases of
        None \<Rightarrow> name
      | Some (alias, canon) \<Rightarrow> canon)"

section \<open>A concrete environment\<close>

text \<open>
  A primitive that copies bytes, for running the code on concrete inputs. The bytes
  \<open>0xFF\<close> and \<open>0xC3\<close> stop it, as an illegal byte and as the start of a character
  whose end is missing; a flush writes the bytes \<open>trailer\<close>. It reports \<^verbatim>\<open>E2BIG\<close>
  when the output space does not hold what it has to write.
\<close>

definition demo_iconv ::
  "byte list \<Rightarrow> unit \<Rightarrow> byte list option \<Rightarrow> size_t option \<Rightarrow> unit iconv_reply" where
  "demo_iconv trailer c ins outs =
     (case outs of
        None \<Rightarrow> \<lparr>nread = 0, written = [], ret = 0, err = 0, next_cd = c\<rparr>
      | Some space \<Rightarrow>
          (case ins of
             None \<Rightarrow>
               if length trailer \<le> unat space
               then \<lparr>nread = 0, written = trailer, ret = 0, err = 0, next_cd = c\<rparr>
               else \<lparr>nread = 0, written = [], ret = - 1, err = E2BIG, next_cd = c\<rparr>
           | Some bs \<Rightarrow>
               let good = takeWhile (\<lambda>b. b \<noteq> 0xFF \<and> b \<noteq> 0xC3) bs;
                   k = min (length good) (unat space)
               in if k < length good
                  then \<lparr>nread = k, written = take k good, ret = - 1, err = E2BIG, next_cd = c\<rparr>
                  else if length good < length bs
                  then \<lparr>nread = k, written = good, ret = - 1,
                        err = (if bs ! k = 0xFF then EILSEQ else EINVAL), next_cd = c\<rparr>
                  else \<lparr>nread = k, written = good, ret = 0, err = 0, next_cd = c\<rparr>))"

text \<open>
  An allocator that grants a request of at most \<open>limit\<close> bytes, each time at a new
  address, and that releases a block resized to nothing, as glibc does; a primitive that
  knows two encodings; code units below 128 as one byte.
\<close>

definition demo_env :: "nat \<Rightarrow> byte list \<Rightarrow> unit env" where
  "demo_env limit trailer =
     \<lparr>env_realloc =
        (\<lambda>w p n. if unat n \<le> limit then 4096 * of_nat (Suc (length (calls w))) else 0),
      env_realloc_zero_frees = True,
      env_iconv = demo_iconv trailer,
      env_iconv_open =
        (\<lambda>tocode fromcode.
           if (tocode = ''UTF-8'' \<or> tocode = ''UTF-16LE'') \<and>
              (fromcode = ''UTF-8'' \<or> fromcode = ''UTF-16LE'')
           then (1, 0, ()) else (- 1, EINVAL, ())),
      env_Utf8Value = map ucast\<rparr>"

definition world0 :: "unit world" where
  "world0 = \<lparr>mem = (\<lambda>a. 0), live = Map.empty, errno = 0, descr = (\<lambda>h. ()), calls = []\<rparr>"

text \<open>Sixteen bytes of input, which fill the first buffer exactly.\<close>

definition input16 :: "byte list" where
  "input16 = [1, 2, 3, 4, 5, 6, 7, 8, 9, 10, 11, 12, 13, 14, 15, 16]"


definition trailer17 :: "byte list" where
  "trailer17 = [1, 2, 3, 4, 5, 6, 7, 8, 9, 10, 11, 12, 13, 14, 15, 16, 17]"



definition empty_run_stateless :: "((js_exception + js_value) \<times> unit world) option" where
  "empty_run_stateless = Iconv_Convert (demo_env 100 []) world0 \<lparr>conv' = 1\<rparr> [] 0"

section \<open>The C library and the primitive, call by call\<close>

lemma realloc_result:
  "realloc E w p n = (q, w') \<Longrightarrow> calls w' = calls w @ [Realloc p n q] \<and> descr w' = descr w"
  by (auto simp: realloc_def Let_def split: if_splits)

lemma realloc_refused:
  "realloc E w p n = (q, w') \<Longrightarrow> q = 0 \<Longrightarrow> n \<noteq> 0 \<Longrightarrow>
     mem w' = mem w \<and> live w' = live w \<and> errno w' = ENOMEM"
  by (auto simp: realloc_def Let_def split: if_splits)

lemma realloc_null:
  "realloc E w p n = (q, w') \<Longrightarrow> q = 0 \<Longrightarrow>
     mem w' = mem w \<and>
     live w' = (if n = 0 \<and> p \<noteq> 0 \<and> env_realloc_zero_frees E then (live w)(p := None) else live w)"
  by (auto simp: realloc_def Let_def split: if_splits)

lemma realloc_granted:
  "realloc E w p n = (q, w') \<Longrightarrow> q \<noteq> 0 \<Longrightarrow>
     unat n < 2 ^ 63 \<and> errno w' = errno w \<and> live w' = ((live w)(p := None))(q \<mapsto> n) \<and>
     mem w' = (\<lambda>a. if a - q < min (case live w p of None \<Rightarrow> 0 | Some k \<Rightarrow> k) n
                    then mem w (p + (a - q)) else mem w a)"
  by (auto simp: realloc_def Let_def split: if_splits)

lemma free_result:
  "calls (free w p) = calls w @ [Free p] \<and> errno (free w p) = errno w \<and>
   mem (free w p) = mem w \<and> descr (free w p) = descr w \<and>
   live (free w p) = (if p = 0 then live w else (live w)(p := None))"
  by (simp add: free_def Let_def)

lemma iconv_result:
  "iconv E w iv ins outs = (r, ins', outs', w') \<Longrightarrow>
     live w' = live w \<and> calls w' = calls w @ [Iconv ins outs r (errno w')] \<and>
     (r \<noteq> - 1 \<longrightarrow> errno w' = errno w)"
  by (auto simp: iconv_def Let_def)

text \<open>What a call of the primitive with an output buffer does to the write cursor.\<close>

lemma iconv_cursor:
  assumes "iconv E w iv ins (Some (ob, obsz)) = (r, ins', outs', w')"
  shows "\<exists>k. k \<le> unat obsz \<and> outs' = Some (ob + of_nat k, obsz - of_nat k)"
proof -
  let ?ws = "take (unat obsz) (written (env_iconv E (descr w iv)
      (map_option (\<lambda>(ib, ibsz). take (unat ibsz) ib) ins) (Some obsz)))"
  from assms have "outs' = Some (ob + of_nat (length ?ws), obsz - of_nat (length ?ws))"
    by (auto simp: iconv_def Let_def)
  moreover have "length ?ws \<le> unat obsz" by simp
  ultimately show ?thesis by blast
qed

section \<open>Arithmetic of sizes\<close>

lemma double_nowrap:
  fixes n :: size_t
  assumes "unat n < 2 ^ 63"
  shows "unat (n * 2) = 2 * unat n"
proof -
  have "unat (n * 2) = (unat n * 2) mod 2 ^ 64"
    by (simp add: unat_word_ariths)
  also have "\<dots> = unat n * 2"
    using assms by simp
  finally show ?thesis by simp
qed

lemma of_nat_less_word:
  fixes x :: size_t
  assumes "i < unat x"
  shows "of_nat i < x"
proof -
  have "unat (of_nat i :: size_t) \<le> i"
    by (simp add: unat_of_nat)
  with assms show ?thesis
    by (simp add: word_less_nat_alt)
qed

lemma unat_small:
  fixes x :: size_t
  assumes "k \<le> unat x"
  shows "unat (of_nat k :: size_t) = k"
proof -
  have "unat x < 2 ^ 64"
    using unsigned_less [of x, where 'a = nat] by simp
  with assms have "k < 2 ^ 64" by simp
  then show ?thesis by (simp add: unat_of_nat)
qed

text \<open>The cursor moves by what was written and the space shrinks by as much.\<close>

lemma cursor_advance:
  fixes a s cap :: size_t
  assumes k: "k \<le> unat s" and fit: "unat a + unat s \<le> unat cap"
  shows "unat (a + of_nat k) = unat a + k" and "unat (s - of_nat k) = unat s - k"
proof -
  have cap: "unat cap < 2 ^ 64"
    using unsigned_less [of cap, where 'a = nat] by simp
  have u: "unat (of_nat k :: size_t) = k"
    using k by (rule unat_small)
  from k fit cap have "unat a + k < 2 ^ 64" by simp
  then show "unat (a + of_nat k) = unat a + k"
    using u by (simp add: unat_word_ariths)
  have "(of_nat k :: size_t) \<le> s"
    using k u by (simp add: word_le_nat_alt)
  then show "unat (s - of_nat k) = unat s - k"
    using u by (simp add: unat_sub)
qed

text \<open>The size \<^verbatim>\<open>grow\<close> asks for, on a capacity that is zero or at least 8 and that can
  be doubled.\<close>

lemma newlen_max:
  fixes cap :: size_t
  assumes "cap = 0 \<or> 8 \<le> unat cap" and "unat cap < 2 ^ 63"
  shows "(if cap \<noteq> 0 then cap * 2 else 16) = of_nat (max 16 (2 * unat cap))"
    and "unat (if cap \<noteq> 0 then cap * 2 else 16) = max 16 (2 * unat cap)"
    and "(if cap \<noteq> 0 then cap * 2 else 16) \<noteq> 0"
proof -
  have a: "unat (if cap \<noteq> 0 then cap * 2 else 16) = max 16 (2 * unat cap)"
  proof (cases "cap = 0")
    case True
    then show ?thesis by simp
  next
    case False
    with assms(1) have "8 \<le> unat cap" by simp
    with False double_nowrap [OF assms(2)] show ?thesis by simp
  qed
  then show "unat (if cap \<noteq> 0 then cap * 2 else 16) = max 16 (2 * unat cap)" .
  have "(if cap \<noteq> 0 then cap * 2 else 16) = of_nat (unat (if cap \<noteq> 0 then cap * 2 else 16))"
    by simp
  also have "\<dots> = of_nat (max 16 (2 * unat cap))"
    by (simp only: a)
  finally show "(if cap \<noteq> 0 then cap * 2 else 16) = of_nat (max 16 (2 * unat cap))" .
  from a have "unat (if cap \<noteq> 0 then cap * 2 else 16) \<noteq> 0" by simp
  then show "(if cap \<noteq> 0 then cap * 2 else 16) \<noteq> 0"
    by (simp only: unat_eq_0 not_False_eq_True)
qed

section \<open>Growth of the buffer\<close>

lemma grow_failed:
  assumes "grow E w b = (rc, w', b')" and "rc = 0"
    and "(if outlen b \<noteq> 0 then outlen b * 2 else 16) \<noteq> 0"
  shows "b' = b \<and> mem w' = mem w \<and> live w' = live w \<and> errno w' = ENOMEM \<and>
         calls w' = calls w @ [Realloc (output' b) (if outlen b \<noteq> 0 then outlen b * 2 else 16) 0]"
proof -
  define newlen where "newlen = (if outlen b \<noteq> 0 then outlen b * 2 else 16)"
  obtain q w1 where r: "realloc E w (output' b) newlen = (q, w1)"
    by (cases "realloc E w (output' b) newlen")
  with assms(1,2) have "q = 0" and "w' = w1" and "b' = b"
    by (auto simp: grow_def Let_def newlen_def split: if_splits)
  with r realloc_refused [OF r] realloc_result [OF r] assms(3)
  show ?thesis by (simp add: newlen_def)
qed

lemma grow_succeeded:
  assumes "grow E w b = (rc, w', b')" and "rc \<noteq> 0"
  shows "\<exists>n q. n = (if outlen b \<noteq> 0 then outlen b * 2 else 16) \<and> q \<noteq> 0 \<and> rc = 1 \<and>
           realloc E w (output' b) n = (q, w') \<and>
           b' = b\<lparr>outbufsz := n - outlen b, outbuf := q + (outbuf b - output' b),
                  outlen := n, output' := q\<rparr>"
proof -
  define newlen where "newlen = (if outlen b \<noteq> 0 then outlen b * 2 else 16)"
  obtain q w1 where r: "realloc E w (output' b) newlen = (q, w1)"
    by (cases "realloc E w (output' b) newlen")
  with assms show ?thesis
    by (auto simp: grow_def Let_def newlen_def split: if_splits)
qed

lemma grow_by_realloc:
  assumes "realloc E w (output' b) (if outlen b \<noteq> 0 then outlen b * 2 else 16) = (q, w1)"
  shows "grow E w b =
     (if q \<noteq> 0
      then (1, w1, b\<lparr>outbufsz := (if outlen b \<noteq> 0 then outlen b * 2 else 16) - outlen b,
                      outbuf := q + (outbuf b - output' b),
                      outlen := (if outlen b \<noteq> 0 then outlen b * 2 else 16),
                      output' := q\<rparr>)
      else (0, w1, b))"
  using assms by (simp add: grow_def Let_def)

section \<open>The conversion buffers\<close>

lemma current_block_append:
  "current_block p (xs @ ys) = current_block (current_block p xs) ys"
  by (induction p xs rule: current_block.induct) simp_all

lemma capacity_after_append:
  "capacity_after cap (xs @ ys) = capacity_after (capacity_after cap xs) ys"
  by (induction cap xs rule: capacity_after.induct) simp_all

lemma growth_only_append:
  "growth_only cap (xs @ ys) \<longleftrightarrow> growth_only cap xs \<and> growth_only (capacity_after cap xs) ys"
  by (induction cap xs rule: growth_only.induct) simp_all

lemma tracks_init: "tracks w0 w0 (init_vars input inlen)"
  unfolding tracks_def by (intro exI [of _ "[]"]) (simp add: init_vars_def holds_buffer_def)

lemma tracks_facts:
  assumes "tracks w0 w b"
  shows "holds_buffer w b" "output' b = 0 \<or> 16 \<le> unat (outlen b)" "unat (outlen b) < 2 ^ 63"
    "unat (outbuf b - output' b) + unat (outbufsz b) \<le> unat (outlen b)"
    "outlen b = 0 \<or> 8 \<le> unat (outlen b)"
    "dom (live w) \<subseteq> insert (output' b) (dom (live w0))"
    "output' b = 0 \<or> output' b \<in> dom (live w)"
proof -
  from assms show hb: "holds_buffer w b" and z: "output' b = 0 \<or> 16 \<le> unat (outlen b)"
    and "unat (outlen b) < 2 ^ 63"
    and "unat (outbuf b - output' b) + unat (outbufsz b) \<le> unat (outlen b)"
    unfolding tracks_def by blast+
  from hb z show "outlen b = 0 \<or> 8 \<le> unat (outlen b)"
    by (auto simp: holds_buffer_def)
  from assms show "dom (live w) \<subseteq> insert (output' b) (dom (live w0))"
    unfolding tracks_def by (auto split: if_splits)
  from hb show "output' b = 0 \<or> output' b \<in> dom (live w)"
    by (auto simp: holds_buffer_def)
qed


lemma tracks_grow:
  assumes t: "tracks w0 w b" and g: "grow E w b = (rc, w1, b1)"
  shows "tracks w0 w1 b1"
proof -
  from t obtain tl where tl: "calls w = calls w0 @ tl" "growth_only 0 tl"
    "output' b = current_block 0 tl" "outlen b = capacity_after 0 tl"
    "dom (live w) \<subseteq> (if output' b = 0 then dom (live w0) else insert (output' b) (dom (live w0)))"
    and hb: "holds_buffer w b"
    and z: "output' b = 0 \<or> 16 \<le> unat (outlen b)"
    and lt: "unat (outlen b) < 2 ^ 63"
    and fit: "unat (outbuf b - output' b) + unat (outbufsz b) \<le> unat (outlen b)"
    unfolding tracks_def by blast
  define n where "n = (if outlen b \<noteq> 0 then outlen b * 2 else 16)"
  note nl = newlen_max [OF tracks_facts(5) [OF t] lt, folded n_def]
  show ?thesis
  proof (cases "rc = 0")
    case True
    from grow_failed [OF g True] nl(3)
    have f: "b1 = b" "live w1 = live w" "calls w1 = calls w @ [Realloc (output' b) n 0]"
      by (simp_all add: n_def)
    show ?thesis
      unfolding tracks_def
      by (rule exI [of _ "tl @ [Realloc (output' b) n 0]"])
        (use f tl n_def hb z lt fit in \<open>auto simp: current_block_append capacity_after_append
            growth_only_append holds_buffer_def\<close>)
  next
    case False
    from grow_succeeded [OF g False] obtain q
      where q: "q \<noteq> 0" and r: "realloc E w (output' b) n = (q, w1)"
        and b1: "b1 = b\<lparr>outbufsz := n - outlen b, outbuf := q + (outbuf b - output' b),
                  outlen := n, output' := q\<rparr>"
      unfolding n_def by auto
    from realloc_result [OF r] realloc_granted [OF r q]
    have k: "calls w1 = calls w0 @ (tl @ [Realloc (output' b) n q])"
      and l: "live w1 = ((live w)(output' b := None))(q \<mapsto> n)"
      and n63: "unat n < 2 ^ 63"
      using tl(1) by simp_all
    have d: "dom (live w1) \<subseteq> insert q (dom (live w0))"
      using l tl(5) by (auto split: if_splits)
    have n16: "16 \<le> unat n"
      using nl(2) by simp
    have le': "unat (outlen b) \<le> unat n"
      using nl(2) by simp
    then have le: "outlen b \<le> n"
      by (simp add: word_le_nat_alt)
    have room: "unat (outbuf b - output' b) + unat (n - outlen b) \<le> unat n"
      using fit le le' by (simp add: unat_sub)
    show ?thesis
      unfolding tracks_def
      by (rule exI [of _ "tl @ [Realloc (output' b) n q]"])
        (use k d l q b1 tl n_def n63 n16 room in \<open>auto simp: current_block_append
            capacity_after_append growth_only_append holds_buffer_def\<close>)
  qed
qed


text \<open>
  C1. On a conversion buffer, that is on every buffer \<^verbatim>\<open>convert\<close> hands to \<^verbatim>\<open>grow\<close>, the
  logical length is at most the capacity, and a call of \<^verbatim>\<open>grow\<close> makes one call of
  \<^verbatim>\<open>realloc\<close>, on the storage, for \<open>max 16 (2 * capacity)\<close> bytes. If the request is
  granted, \<^verbatim>\<open>grow\<close> returns 1 and the capacity is \<open>max 16 (2 * capacity)\<close>; if it is
  refused, \<^verbatim>\<open>grow\<close> returns 0, \<^verbatim>\<open>errno\<close> is \<^verbatim>\<open>ENOMEM\<close> and the buffer and its block are
  as they were. In both cases the bytes written so far are where they were relative to
  the start of the storage, the offset of the write cursor is unchanged, the logical
  length is at most the capacity, and the buffer is a conversion buffer again.
\<close>

theorem grow_contract:
  assumes t: "tracks w0 w b" and g: "grow E w b = (rc, w', b')"
  shows "\<exists>q. calls w' = calls w @ [Realloc (output' b) (of_nat (max 16 (2 * unat (outlen b)))) q] \<and>
             rc = (if q = 0 then 0 else 1) \<and>
             unat (outlen b') = (if q = 0 then unat (outlen b) else max 16 (2 * unat (outlen b))) \<and>
             (\<forall>i < unat (outbuf b - output' b).
                mem w' (output' b' + of_nat i) = mem w (output' b + of_nat i)) \<and>
             outbuf b' - output' b' = outbuf b - output' b \<and>
             unat (outbuf b - output' b) \<le> unat (outlen b) \<and>
             unat (outbuf b' - output' b') \<le> unat (outlen b') \<and>
             (if q = 0 then b' = b \<and> live w' = live w \<and> errno w' = ENOMEM
              else output' b' = q \<and> live w' q = Some (outlen b')) \<and>
             tracks w0 w' b'"
proof -
  define n where "n = (if outlen b \<noteq> 0 then outlen b * 2 else 16)"
  note f = tracks_facts [OF t]
  note nl = newlen_max [OF f(5) f(3), folded n_def]
  from f(4) have len: "unat (outbuf b - output' b) \<le> unat (outlen b)"
    by simp
  from tracks_grow [OF t g] have t': "tracks w0 w' b'" .
  show ?thesis
  proof (cases "rc = 0")
    case True
    from grow_failed [OF g True] nl(3)
    have "b' = b" "mem w' = mem w" "live w' = live w" "errno w' = ENOMEM"
      "calls w' = calls w @ [Realloc (output' b) n 0]"
      by (simp_all add: n_def)
    with True len t' nl(1) have
      "calls w' = calls w @ [Realloc (output' b) (of_nat (max 16 (2 * unat (outlen b)))) 0] \<and>
       rc = (if (0 :: ptr) = 0 then 0 else 1) \<and>
       unat (outlen b') = (if (0 :: ptr) = 0 then unat (outlen b) else max 16 (2 * unat (outlen b))) \<and>
       (\<forall>i < unat (outbuf b - output' b).
          mem w' (output' b' + of_nat i) = mem w (output' b + of_nat i)) \<and>
       outbuf b' - output' b' = outbuf b - output' b \<and>
       unat (outbuf b - output' b) \<le> unat (outlen b) \<and>
       unat (outbuf b' - output' b') \<le> unat (outlen b') \<and>
       (if (0 :: ptr) = 0 then b' = b \<and> live w' = live w \<and> errno w' = ENOMEM
        else output' b' = 0 \<and> live w' 0 = Some (outlen b')) \<and>
       tracks w0 w' b'"
      by simp
    then show ?thesis by (rule exI)
  next
    case False
    from grow_succeeded [OF g False] obtain q
      where q: "q \<noteq> 0" and rc: "rc = 1"
        and r: "realloc E w (output' b) n = (q, w')"
        and b': "b' = b\<lparr>outbufsz := n - outlen b, outbuf := q + (outbuf b - output' b),
                       outlen := n, output' := q\<rparr>"
      unfolding n_def by blast
    have le: "unat (outlen b) \<le> unat n"
      using nl(2) by simp
    from realloc_granted [OF r q]
    have lv: "live w' = ((live w)(output' b := None))(q \<mapsto> n)"
      and mm: "mem w' = (\<lambda>a. if a - q < min (case live w (output' b) of None \<Rightarrow> 0 | Some k \<Rightarrow> k) n
                      then mem w (output' b + (a - q)) else mem w a)"
      by simp_all
    have c3: "\<forall>i < unat (outbuf b - output' b).
              mem w' (output' b' + of_nat i) = mem w (output' b + of_nat i)"
    proof (intro allI impI)
      fix i assume i: "i < unat (outbuf b - output' b)"
      with len have il: "i < unat (outlen b)" by simp
      then have nz: "outlen b \<noteq> 0" by (auto simp: unat_eq_zero)
      with f(1) have lw: "live w (output' b) = Some (outlen b)"
        by (auto simp: holds_buffer_def split: if_splits)
      have "(of_nat i :: size_t) < outlen b"
        using il by (rule of_nat_less_word)
      moreover have "outlen b \<le> n"
        using le by (simp add: word_le_nat_alt)
      ultimately have "(of_nat i :: size_t) < min (outlen b) n" by simp
      then show "mem w' (output' b' + of_nat i) = mem w (output' b + of_nat i)"
        using mm lw b' by simp
    qed
    from realloc_result [OF r] nl(1)
    have k: "calls w' = calls w @ [Realloc (output' b) (of_nat (max 16 (2 * unat (outlen b)))) q]"
      by simp
    have c1: "unat (outlen b') = max 16 (2 * unat (outlen b))"
      using b' nl(2) by simp
    have c4: "outbuf b' - output' b' = outbuf b - output' b"
      using b' by simp
    have c5: "unat (outbuf b' - output' b') \<le> unat (outlen b')"
      using c4 len le b' by simp
    have c6: "output' b' = q \<and> live w' q = Some (outlen b')"
      using b' lv by simp
    from k rc q c1 c3 c4 len c5 c6 t' have
      "calls w' = calls w @ [Realloc (output' b) (of_nat (max 16 (2 * unat (outlen b)))) q] \<and>
       rc = (if q = 0 then 0 else 1) \<and>
       unat (outlen b') = (if q = 0 then unat (outlen b) else max 16 (2 * unat (outlen b))) \<and>
       (\<forall>i < unat (outbuf b - output' b).
          mem w' (output' b' + of_nat i) = mem w (output' b + of_nat i)) \<and>
       outbuf b' - output' b' = outbuf b - output' b \<and>
       unat (outbuf b - output' b) \<le> unat (outlen b) \<and>
       unat (outbuf b' - output' b') \<le> unat (outlen b') \<and>
       (if q = 0 then b' = b \<and> live w' = live w \<and> errno w' = ENOMEM
        else output' b' = q \<and> live w' q = Some (outlen b')) \<and>
       tracks w0 w' b'"
      by simp
    then show ?thesis by (rule exI)
  qed
qed


section \<open>The growth loop\<close>

text \<open>A property of the loop's result follows from an invariant of its body; the loop
  being a partial function, the rule is its fixed-point induction.\<close>

lemma convert_loop_rule:
  assumes run: "convert_loop E iv w s = Some (ok, w', s')"
    and inv: "P w s"
    and fail: "\<And>w s w1 s1. P w s \<Longrightarrow> grow E w s = (0, w1, s1) \<Longrightarrow> Q False w1 s1"
    and step: "\<And>w s rc w1 s1 r ins outs w2.
        P w s \<Longrightarrow> grow E w s = (rc, w1, s1) \<Longrightarrow> rc \<noteq> 0 \<Longrightarrow>
        iconv E w1 iv (Some (inbuf s1, inbufsz s1)) (Some (outbuf s1, outbufsz s1)) = (r, ins, outs, w2) \<Longrightarrow>
        (if r = - 1 \<and> errno w2 = E2BIG
         then P w2 ((set_out outs (set_in ins s1))\<lparr>rv := r\<rparr>)
         else Q True w2 ((set_out outs (set_in ins s1))\<lparr>rv := r\<rparr>))"
  shows "Q ok w' s'"
proof -
  note ind = convert_loop.raw_induct
    [where P = "\<lambda>E' iv' w s y. E' = E \<longrightarrow> iv' = iv \<longrightarrow> P w s \<longrightarrow> Q (fst y) (fst (snd y)) (snd (snd y))"]
  have "E = E \<longrightarrow> iv = iv \<longrightarrow> P w s \<longrightarrow>
          Q (fst (ok, w', s')) (fst (snd (ok, w', s'))) (snd (snd (ok, w', s')))"
  proof (rule ind [OF _ run])
    fix loop E' iv' w s y
    assume IH: "\<And>E'' iv'' w s y. loop E'' iv'' w s = Some y \<Longrightarrow>
                  E'' = E \<longrightarrow> iv'' = iv \<longrightarrow> P w s \<longrightarrow> Q (fst y) (fst (snd y)) (snd (snd y))"
      and body: "(case grow E' w s of
          (ok, w1, s1) \<Rightarrow>
            if ok \<noteq> 0
            then case iconv E' w1 iv' (Some (inbuf s1, inbufsz s1)) (Some (outbuf s1, outbufsz s1)) of
                 (r, ins, outs, w2) \<Rightarrow>
                   let s2 = (set_out outs (set_in ins s1))\<lparr>rv := r\<rparr>
                   in if r = - 1 \<and> errno w2 = E2BIG then loop E' iv' w2 s2
                      else Some (True, w2, s2)
            else Some (False, w1, s1)) = Some y"
    show "E' = E \<longrightarrow> iv' = iv \<longrightarrow> P w s \<longrightarrow> Q (fst y) (fst (snd y)) (snd (snd y))"
    proof (intro impI)
      assume e: "E' = E" and i: "iv' = iv" and p: "P w s"
      obtain rc w1 s1 where g: "grow E w s = (rc, w1, s1)"
        by (cases "grow E w s")
      show "Q (fst y) (fst (snd y)) (snd (snd y))"
      proof (cases "rc = 0")
        case True
        with body g e have "y = (False, w1, s1)" by simp
        with fail [OF p] g True show ?thesis by simp
      next
        case False
        obtain r ins outs w2 where
          c: "iconv E w1 iv (Some (inbuf s1, inbufsz s1)) (Some (outbuf s1, outbufsz s1)) = (r, ins, outs, w2)"
          by (cases "iconv E w1 iv (Some (inbuf s1, inbufsz s1)) (Some (outbuf s1, outbufsz s1))")
        let ?s2 = "(set_out outs (set_in ins s1))\<lparr>rv := r\<rparr>"
        note st = step [OF p g False c]
        show ?thesis
        proof (cases "r = - 1 \<and> errno w2 = E2BIG")
          case True
          with body g e i False c have "loop E iv w2 ?s2 = Some y"
            by (simp add: Let_def)
          from IH [OF this] st True show ?thesis by simp
        next
          case no: False
          with body g e i False c have "y = (True, w2, ?s2)"
            by (auto simp: Let_def)
          with st no show ?thesis by simp
        qed
      qed
    qed
  qed
  with inv show ?thesis by simp
qed

lemma output_after_iconv [simp]:
  "output' ((set_out outs (set_in ins s))\<lparr>rv := r\<rparr>) = output' s"
  "outlen ((set_out outs (set_in ins s))\<lparr>rv := r\<rparr>) = outlen s"
  "output' (set_out outs s) = output' s" "outlen (set_out outs s) = outlen s"
  by (simp_all add: set_out_def set_in_def split: option.splits)

lemma tracks_iconv:
  assumes t: "tracks w0 w b"
    and c: "iconv E w iv ins (Some (outbuf b, outbufsz b)) = (r, ins', outs', w')"
    and same: "output' b' = output' b" "outlen b' = outlen b"
    and cur: "outs' = Some (outbuf b', outbufsz b')"
  shows "tracks w0 w' b'"
proof -
  from t obtain tl where tl: "calls w = calls w0 @ tl" "growth_only 0 tl"
    "output' b = current_block 0 tl" "outlen b = capacity_after 0 tl"
    "dom (live w) \<subseteq> (if output' b = 0 then dom (live w0) else insert (output' b) (dom (live w0)))"
    and hb: "holds_buffer w b"
    and z: "output' b = 0 \<or> 16 \<le> unat (outlen b)"
    and lt: "unat (outlen b) < 2 ^ 63"
    and fit: "unat (outbuf b - output' b) + unat (outbufsz b) \<le> unat (outlen b)"
    unfolding tracks_def by blast
  from iconv_cursor [OF c] cur obtain k where k: "k \<le> unat (outbufsz b)"
    and ob: "outbuf b' = outbuf b + of_nat k" and os: "outbufsz b' = outbufsz b - of_nat k"
    by auto
  have e: "outbuf b' - output' b' = (outbuf b - output' b) + of_nat k"
    using ob same by simp
  have "unat (outbuf b' - output' b') = unat (outbuf b - output' b) + k"
    by (simp only: e cursor_advance(1) [OF k fit])
  moreover have "unat (outbufsz b') = unat (outbufsz b) - k"
    by (simp only: os cursor_advance(2) [OF k fit])
  ultimately have fit': "unat (outbuf b' - output' b') + unat (outbufsz b') \<le> unat (outlen b')"
    using k fit same by simp
  from iconv_result [OF c] have l: "live w' = live w"
    and kk: "calls w' = calls w0 @ (tl @ [Iconv ins (Some (outbuf b, outbufsz b)) r (errno w')])"
    using tl(1) by simp_all
  show ?thesis
    unfolding tracks_def
    by (rule exI [of _ "tl @ [Iconv ins (Some (outbuf b, outbufsz b)) r (errno w')]"])
      (use kk l tl same hb z lt fit' in \<open>auto simp: current_block_append capacity_after_append
          growth_only_append holds_buffer_def\<close>)
qed

lemma tracks_step:
  assumes t: "tracks w0 w s"
    and c: "iconv E w iv ins (Some (outbuf s, outbufsz s)) = (r, ins', outs', w')"
  shows "tracks w0 w' ((set_out outs' (set_in ins' s))\<lparr>rv := r\<rparr>)"
    and "tracks w0 w' (set_out outs' s)"
    and "tracks w0 w' ((set_out outs' s)\<lparr>rv := r\<rparr>)"
proof -
  from iconv_cursor [OF c] obtain c' n' where o: "outs' = Some (c', n')"
    by auto
  show "tracks w0 w' ((set_out outs' (set_in ins' s))\<lparr>rv := r\<rparr>)"
    by (rule tracks_iconv [OF t c]) (simp_all add: o set_out_def set_in_def split: option.splits)
  show "tracks w0 w' (set_out outs' s)"
    by (rule tracks_iconv [OF t c]) (simp_all add: o set_out_def)
  show "tracks w0 w' ((set_out outs' s)\<lparr>rv := r\<rparr>)"
    by (rule tracks_iconv [OF t c]) (simp_all add: o set_out_def)
qed

lemma tracks_reset:
  assumes "iconv E w iv None None = (r0, i0, o0, w0)"
  shows "tracks w w0 (init_vars input inlen)"
proof -
  from iconv_result [OF assms]
  have "calls w0 = calls w @ [Iconv None None r0 (errno w0)]" and "live w0 = live w"
    by simp_all
  then show ?thesis
    unfolding tracks_def
    by (intro exI [of _ "[Iconv None None r0 (errno w0)]"])
      (simp add: init_vars_def holds_buffer_def)
qed

lemma convert_loop_tracks:
  assumes "convert_loop E iv w s = Some (ok, w', s')" and "tracks w0 w s"
  shows "tracks w0 w' s'"
proof (rule convert_loop_rule [where P = "tracks w0" and Q = "\<lambda>ok. tracks w0", OF assms])
  fix w and s s1 :: convert_vars and w1
  assume "tracks w0 w s" "grow E w s = (0, w1, s1)"
  then show "tracks w0 w1 s1" by (rule tracks_grow)
next
  fix w and s s1 :: convert_vars and rc w1 r ins outs w2
  assume t: "tracks w0 w s" and g: "grow E w s = (rc, w1, s1)"
    and c: "iconv E w1 iv (Some (inbuf s1, inbufsz s1)) (Some (outbuf s1, outbufsz s1)) = (r, ins, outs, w2)"
  from tracks_grow [OF t g] have t1: "tracks w0 w1 s1" .
  from tracks_step(1) [OF t1 c]
  show "if r = - 1 \<and> errno w2 = E2BIG
       then tracks w0 w2 ((set_out outs (set_in ins s1))\<lparr>rv := r\<rparr>)
       else tracks w0 w2 ((set_out outs (set_in ins s1))\<lparr>rv := r\<rparr>)"
    by simp
qed

text \<open>The loop only adds calls to those made before it.\<close>

lemma convert_loop_extends:
  assumes "convert_loop E iv w s = Some (ok, w', s')"
  shows "\<exists>cs. calls w' = calls w @ cs"
proof (rule convert_loop_rule
    [where P = "\<lambda>wa sa. \<exists>cs. calls wa = calls w @ cs"
       and Q = "\<lambda>ok wa sa. \<exists>cs. calls wa = calls w @ cs", OF assms])
  show "\<exists>cs. calls w = calls w @ cs" by simp
next
  fix wa and s s1 :: convert_vars and w1
  assume p: "\<exists>cs. calls wa = calls w @ cs" and g: "grow E wa s = (0, w1, s1)"
  obtain q wb where r: "realloc E wa (output' s) (if outlen s \<noteq> 0 then outlen s * 2 else 16) = (q, wb)"
    by (cases "realloc E wa (output' s) (if outlen s \<noteq> 0 then outlen s * 2 else 16)")
  with g have "w1 = wb"
    by (simp add: grow_by_realloc [OF r] split: if_splits)
  with realloc_result [OF r] p show "\<exists>cs. calls w1 = calls w @ cs" by auto
next
  fix wa and s s1 :: convert_vars and rc w1 r ins outs w2
  assume p: "\<exists>cs. calls wa = calls w @ cs" and g: "grow E wa s = (rc, w1, s1)" and rc: "rc \<noteq> 0"
    and c: "iconv E w1 iv (Some (inbuf s1, inbufsz s1)) (Some (outbuf s1, outbufsz s1)) = (r, ins, outs, w2)"
  from grow_succeeded [OF g rc] obtain n q where "realloc E wa (output' s) n = (q, w1)"
    by auto
  from realloc_result [OF this] have "calls w1 = calls wa @ [Realloc (output' s) n q]"
    by simp
  with iconv_result [OF c] p have "\<exists>cs. calls w2 = calls w @ cs"
    by auto
  then show "if r = - 1 \<and> errno w2 = E2BIG
       then \<exists>cs. calls w2 = calls w @ cs else \<exists>cs. calls w2 = calls w @ cs"
    by simp
qed

text \<open>
  How the loop ends: at a refused growth, with \<^verbatim>\<open>ENOMEM\<close> in \<^verbatim>\<open>errno\<close>, or at a call
  of the primitive that did not report \<^verbatim>\<open>E2BIG\<close>, whose return value is in \<^verbatim>\<open>rv\<close>.
\<close>

lemma convert_loop_exit:
  assumes l: "convert_loop E iv w s = Some (ok, w', s')" and t: "tracks w0 w s"
  shows "if ok
         then output' s' \<noteq> 0 \<and>
              (\<exists>cs i out. calls w' = cs @ [Iconv (Some i) (Some out) (rv s') (errno w')]) \<and>
              \<not> (rv s' = - 1 \<and> errno w' = E2BIG)
         else errno w' = ENOMEM \<and> (\<exists>cs n. n \<noteq> 0 \<and> calls w' = cs @ [Realloc (output' s') n 0])"
proof (rule convert_loop_rule
    [where P = "tracks w0"
       and Q = "\<lambda>ok w' s'. if ok
         then output' s' \<noteq> 0 \<and>
              (\<exists>cs i out. calls w' = cs @ [Iconv (Some i) (Some out) (rv s') (errno w')]) \<and>
              \<not> (rv s' = - 1 \<and> errno w' = E2BIG)
         else errno w' = ENOMEM \<and> (\<exists>cs n. n \<noteq> 0 \<and> calls w' = cs @ [Realloc (output' s') n 0])",
     OF l t])
  fix w and s s1 :: convert_vars and w1
  assume t: "tracks w0 w s" and g: "grow E w s = (0, w1, s1)"
  note f = tracks_facts [OF t]
  from grow_failed [OF g refl newlen_max(3) [OF f(5) f(3)]] newlen_max(3) [OF f(5) f(3)]
  show "if False
         then output' s1 \<noteq> 0 \<and>
              (\<exists>cs i out. calls w1 = cs @ [Iconv (Some i) (Some out) (rv s1) (errno w1)]) \<and>
              \<not> (rv s1 = - 1 \<and> errno w1 = E2BIG)
         else errno w1 = ENOMEM \<and> (\<exists>cs n. n \<noteq> 0 \<and> calls w1 = cs @ [Realloc (output' s1) n 0])"
    by auto
next
  fix w and s s1 :: convert_vars and rc w1 r ins outs w2
  assume g: "grow E w s = (rc, w1, s1)" and rc: "rc \<noteq> 0"
    and c: "iconv E w1 iv (Some (inbuf s1, inbufsz s1)) (Some (outbuf s1, outbufsz s1)) = (r, ins, outs, w2)"
    and t: "tracks w0 w s"
  let ?s2 = "(set_out outs (set_in ins s1))\<lparr>rv := r\<rparr>"
  from grow_succeeded [OF g rc] have "output' s1 \<noteq> 0" by auto
  then have o: "output' ?s2 \<noteq> 0" by simp
  have "rv ?s2 = r" by simp
  with iconv_result [OF c] o tracks_step(1) [OF tracks_grow [OF t g] c]
  show "if r = - 1 \<and> errno w2 = E2BIG then tracks w0 w2 ?s2
        else if True
         then output' ?s2 \<noteq> 0 \<and>
              (\<exists>cs i out. calls w2 = cs @ [Iconv (Some i) (Some out) (rv ?s2) (errno w2)]) \<and>
              \<not> (rv ?s2 = - 1 \<and> errno w2 = E2BIG)
         else errno w2 = ENOMEM \<and> (\<exists>cs n. n \<noteq> 0 \<and> calls w2 = cs @ [Realloc (output' ?s2) n 0])"
    by auto
qed



text \<open>The ways through \<^verbatim>\<open>convert\<close> after the loop.\<close>

lemma convert_outcome:
  assumes r: "iconv E w iv None None = (r0, i0, o0, w0)"
    and l: "convert_loop E iv w0 (init_vars input inlen) = Some (looped, w1, s1)"
    and f: "flush E iv w1 s1 = (fok, w2, s2)"
  shows "convert E w iv input inlen =
           Some (if \<not> looped \<or> rv s1 = - 1 then error_exit w1 s1
                 else if fok then finish E w2 s2 else error_exit w2 s2)"
  using r l f by (simp add: convert_def Let_def)



section \<open>The phases of \<^verbatim>\<open>convert\<close>\<close>

lemma twice_less_once: "x * 2 - x = (x :: size_t)"
  by simp


text \<open>
  The flush, call by call: the flush form of the primitive at the write cursor; if it
  reports \<^verbatim>\<open>E2BIG\<close>, a request for twice the capacity and, when that is granted, the
  flush form again, at the same offset in the new block and with the added half of the
  capacity as space.
\<close>

lemma flush_outcome:
  assumes t: "tracks w0 w1 s1" and nz: "output' s1 \<noteq> 0"
    and first: "iconv E w1 iv None (Some (outbuf s1, outbufsz s1)) = (r1, i1, Some (c1, n1), w2)"
    and growth: "realloc E w2 (output' s1) (outlen s1 * 2) = (q, w3)"
    and second: "iconv E w3 iv None (Some (q + (c1 - output' s1), outlen s1)) =
                   (r2, i2, Some (c2, n2), w4)"
  shows "\<exists>s2. flush E iv w1 s1 =
                (if r1 \<noteq> - 1 then (True, w2, s2)
                 else if errno w2 \<noteq> E2BIG then (False, w2, s2)
                 else if q = 0 then (False, w3, s2)
                 else (r2 \<noteq> - 1, w4, s2)) \<and>
              output' s2 = (if r1 = - 1 \<and> errno w2 = E2BIG \<and> q \<noteq> 0 then q else output' s1) \<and>
              outbuf s2 = (if r1 = - 1 \<and> errno w2 = E2BIG \<and> q \<noteq> 0 then c2 else c1)"
proof -
  from tracks_facts(2) [OF t] nz have cap: "outlen s1 \<noteq> 0"
    by auto
  let ?sa = "(set_out (Some (c1, n1)) s1)\<lparr>rv := r1\<rparr>"
  have sa: "output' ?sa = output' s1" "outlen ?sa = outlen s1" "outbuf ?sa = c1"
    by (simp_all add: set_out_def)
  from growth cap sa have g: "grow E w2 ?sa =
      (if q \<noteq> 0
       then (1, w3, ?sa\<lparr>outbufsz := outlen s1, outbuf := q + (c1 - output' s1),
                         outlen := outlen s1 * 2, output' := q\<rparr>)
       else (0, w3, ?sa))"
    by (simp add: grow_def Let_def)
  let ?sb = "?sa\<lparr>outbufsz := outlen s1, outbuf := q + (c1 - output' s1),
               outlen := outlen s1 * 2, output' := q\<rparr>"
  have sb: "outbuf ?sb = q + (c1 - output' s1)" "outbufsz ?sb = outlen s1" "output' ?sb = q"
    by simp_all
  consider "r1 \<noteq> - 1" | "r1 = - 1" "errno w2 \<noteq> E2BIG" | "r1 = - 1" "errno w2 = E2BIG" "q = 0"
    | "r1 = - 1" "errno w2 = E2BIG" "q \<noteq> 0"
    by blast
  then show ?thesis
  proof cases
    case 1
    with first have "flush E iv w1 s1 = (True, w2, ?sa)"
      by (simp add: flush_def Let_def)
    with 1 sa show ?thesis by (intro exI [of _ ?sa]) simp
  next
    case 2
    with first have "flush E iv w1 s1 = (False, w2, ?sa)"
      by (simp add: flush_def Let_def)
    with 2 sa show ?thesis by (intro exI [of _ ?sa]) simp
  next
    case 3
    with first g have "flush E iv w1 s1 = (False, w3, ?sa)"
      by (simp add: flush_def Let_def)
    with 3 sa show ?thesis by (intro exI [of _ ?sa]) simp
  next
    case 4
    with first g second sb
    have "flush E iv w1 s1 = (r2 \<noteq> - 1, w4, set_out (Some (c2, n2)) ?sb)"
      by (simp add: flush_def Let_def)
    moreover have "output' (set_out (Some (c2, n2)) ?sb) = q" "outbuf (set_out (Some (c2, n2)) ?sb) = c2"
      by (simp_all add: set_out_def)
    ultimately show ?thesis
      using 4 by (intro exI [of _ "set_out (Some (c2, n2)) ?sb"]) simp
  qed
qed

lemma flush_tracks:
  assumes f: "flush E iv w s = (ok, w', s')" and t: "tracks w0 w s"
  shows "tracks w0 w' s'"
proof -
  obtain r ins outs w1 where
    c1: "iconv E w iv None (Some (outbuf s, outbufsz s)) = (r, ins, outs, w1)"
    by (cases "iconv E w iv None (Some (outbuf s, outbufsz s))")
  let ?s1 = "(set_out outs s)\<lparr>rv := r\<rparr>"
  from tracks_step(3) [OF t c1] have t1: "tracks w0 w1 ?s1" .
  obtain rc w2 s2 where g: "grow E w1 ?s1 = (rc, w2, s2)"
    by (cases "grow E w1 ?s1")
  from tracks_grow [OF t1 g] have t2: "tracks w0 w2 s2" .
  obtain r2 ins2 outs2 w3 where
    c2: "iconv E w2 iv None (Some (outbuf s2, outbufsz s2)) = (r2, ins2, outs2, w3)"
    by (cases "iconv E w2 iv None (Some (outbuf s2, outbufsz s2))")
  from tracks_step(2) [OF t2 c2] have t3: "tracks w0 w3 (set_out outs2 s2)" .
  from f c1 g c2 have "(w', s') = (w1, ?s1) \<or> (w', s') = (w2, s2) \<or> (w', s') = (w3, set_out outs2 s2)"
    by (auto simp: flush_def Let_def split: if_splits)
  with t1 t2 t3 show ?thesis by auto
qed


lemma flush_extends:
  assumes "flush E iv w1 s1 = (fok, w2, s2)"
  shows "\<exists>cs. calls w2 = calls w1 @ cs"
proof -
  obtain r ins outs wa where
    c1: "iconv E w1 iv None (Some (outbuf s1, outbufsz s1)) = (r, ins, outs, wa)"
    by (cases "iconv E w1 iv None (Some (outbuf s1, outbufsz s1))")
  let ?s1 = "(set_out outs s1)\<lparr>rv := r\<rparr>"
  obtain q wb where re: "realloc E wa (output' ?s1) (if outlen ?s1 \<noteq> 0 then outlen ?s1 * 2 else 16) = (q, wb)"
    by (cases "realloc E wa (output' ?s1) (if outlen ?s1 \<noteq> 0 then outlen ?s1 * 2 else 16)")
  note g = grow_by_realloc [OF re]
  obtain rc wg sg where gg: "grow E wa ?s1 = (rc, wg, sg)"
    by (cases "grow E wa ?s1")
  with g have wg: "wg = wb" by (auto split: if_splits)
  obtain r2 ins2 outs2 wc where
    c2: "iconv E wg iv None (Some (outbuf sg, outbufsz sg)) = (r2, ins2, outs2, wc)"
    by (cases "iconv E wg iv None (Some (outbuf sg, outbufsz sg))")
  from assms c1 gg c2 have "w2 = wa \<or> w2 = wg \<or> w2 = wc"
    by (auto simp: flush_def Let_def split: if_splits)
  with iconv_result [OF c1] realloc_result [OF re] iconv_result [OF c2] wg
  show ?thesis by auto
qed

lemma finish_effect:
  assumes "finish E w s = (rc, w', s')"
  shows "rc = 1 \<and> outlen s' = outbuf s - output' s \<and>
         (\<exists>q. realloc E w (output' s) (outbuf s - output' s) = (q, w') \<and>
              output' s' = (if q \<noteq> 0 then q else output' s))"
proof -
  obtain q w1 where r: "realloc E w (output' s) (outbuf s - output' s) = (q, w1)"
    by (cases "realloc E w (output' s) (outbuf s - output' s)")
  with assms show ?thesis
    by (auto simp: finish_def Let_def split: if_splits)
qed

lemma error_exit_effect:
  assumes "error_exit w s = (rc, w', s')"
  shows "rc = 0 \<and> output' s' = 0 \<and> outlen s' = 0 \<and> calls w' = calls w @ [Free (output' s)] \<and>
         errno w' = errno w \<and> live w' = (if output' s = 0 then live w else (live w)(output' s := None))"
  using assms free_result [of w "output' s"] by (auto simp: error_exit_def)

section \<open>The two ways a conversion ends\<close>

lemma thrown_by_errno:
  assumes "convert E w iv input inlen = Some (0, w', s')"
  shows "\<exists>x. Iconv_Convert E w \<lparr>conv' = iv\<rparr> input inlen = Some (Inl x, w') \<and>
             thrown (Inl x) (errno w')"
  using assms
  by (simp add: Iconv_Convert_def thrown_def classify_def EINVAL_def EILSEQ_def ENOMEM_def)

lemma aborted_intro:
  assumes c: "convert E w iv input inlen = Some (error_exit wk sk)" and t: "tracks w wk sk"
  shows "aborted E w iv input inlen wk (output' sk)"
proof -
  let ?blk = "output' sk"
  have e: "error_exit wk sk = (0, free wk ?blk, sk\<lparr>output' := 0, outlen := 0\<rparr>)"
    by (simp add: error_exit_def)
  with c have c': "convert E w iv input inlen = Some (0, free wk ?blk, sk\<lparr>output' := 0, outlen := 0\<rparr>)"
    by simp
  then have one: "\<exists>s'. convert E w iv input inlen = Some (0, free wk ?blk, s') \<and>
      output' s' = 0 \<and> outlen s' = 0"
    by simp
  note two = tracks_facts(7) [OF t]
  from t have "dom (live wk) \<subseteq> (if ?blk = 0 then dom (live w) else insert ?blk (dom (live w)))"
    unfolding tracks_def by blast
  then have three: "dom (live (free wk ?blk)) \<subseteq> dom (live w)"
    by (auto simp: free_result split: if_splits)
  from thrown_by_errno [OF c']
  have four: "\<exists>x. Iconv_Convert E w \<lparr>conv' = iv\<rparr> input inlen = Some (Inl x, free wk ?blk) \<and>
      thrown (Inl x) (errno wk)"
    by (simp add: free_result)
  from one two three four show ?thesis
    unfolding aborted_def by (intro conjI)
qed

lemma delivered_intro:
  assumes c: "convert E w iv input inlen = Some (finish E w2 s2)" and t: "tracks w w2 s2"
  shows "delivered E w iv input inlen w2 (output' s2) (outbuf s2)"
proof -
  let ?blk = "output' s2" and ?cur = "outbuf s2"
  obtain p w' where re: "realloc E w2 ?blk (?cur - ?blk) = (p, w')"
    by (cases "realloc E w2 ?blk (?cur - ?blk)")
  then have fin: "finish E w2 s2 =
      (1, w', if p \<noteq> 0 then s2\<lparr>outlen := ?cur - ?blk, outbuf := p, output' := p\<rparr>
              else s2\<lparr>outlen := ?cur - ?blk, outbuf := p\<rparr>)"
    by (simp add: finish_def Let_def)
  with c have one: "\<exists>s'. convert E w iv input inlen = Some (1, w', s') \<and>
      output' s' = (if p = 0 then ?blk else p) \<and> outlen s' = ?cur - ?blk"
    by simp
  from c fin have two: "Iconv_Convert E w \<lparr>conv' = iv\<rparr> input inlen =
      Some (Inr (Buffer (if p = 0 then ?blk else p) (?cur - ?blk)), w')"
    by (simp add: Iconv_Convert_def)
  have three: "?cur = ?blk \<or> owns w' (Buffer (if p = 0 then ?blk else p) (?cur - ?blk))"
  proof (cases "?cur = ?blk")
    case True
    then show ?thesis by simp
  next
    case False
    then have len: "?cur - ?blk \<noteq> 0" by simp
    note f = tracks_facts [OF t]
    have "owns w' (Buffer (if p = 0 then ?blk else p) (?cur - ?blk))"
    proof (cases "p = 0")
      case True
      from realloc_refused [OF re True len] have l: "live w' = live w2" by simp
      from len f(4) have "outlen s2 \<noteq> 0"
        by (auto simp: unat_eq_0)
      with f(1) have "live w2 ?blk = Some (outlen s2)"
        by (auto simp: holds_buffer_def split: if_splits)
      moreover from f(4) have "?cur - ?blk \<le> outlen s2"
        by (simp add: word_le_nat_alt)
      ultimately show ?thesis
        using True l by simp
    next
      case False
      from realloc_granted [OF re False] have "live w' p = Some (?cur - ?blk)"
        by simp
      with False show ?thesis by simp
    qed
    then show ?thesis ..
  qed
  from one two three re show ?thesis
    unfolding delivered_def by simp
qed



section \<open>Failure of a conversion\<close>






section \<open>The flush\<close>

text \<open>What follows the loop when it has ended with a successful call of the primitive.\<close>

lemma after_loop:
  assumes r: "iconv E w iv None None = (r0, i0, o0, w0)"
    and l: "convert_loop E iv w0 (init_vars input inlen) = Some (True, w1, s1)"
    and ok: "rv s1 \<noteq> - 1"
    and first: "iconv E w1 iv None (Some (outbuf s1, outbufsz s1)) = (r1, i1, Some (c1, n1), w2)"
    and growth: "realloc E w2 (output' s1) (outlen s1 * 2) = (q, w3)"
    and second: "iconv E w3 iv None (Some (q + (c1 - output' s1), outlen s1)) =
                   (r2, i2, Some (c2, n2), w4)"
  shows "(if r1 \<noteq> - 1 then delivered E w iv input inlen w2 (output' s1) c1
          else if errno w2 \<noteq> E2BIG then aborted E w iv input inlen w2 (output' s1)
          else if q = 0 then aborted E w iv input inlen w3 (output' s1)
          else if r2 = - 1 then aborted E w iv input inlen w4 q
          else delivered E w iv input inlen w4 q c2) \<and>
         calls w2 = calls w1 @ [Iconv None (Some (outbuf s1, outbufsz s1)) r1 (errno w2)] \<and>
         calls w3 = calls w2 @ [Realloc (output' s1) (outlen s1 * 2) q] \<and>
         calls w4 = calls w3 @ [Iconv None (Some (q + (c1 - output' s1), outlen s1)) r2 (errno w4)] \<and>
         16 \<le> unat (outlen s1) \<and> unat (outlen s1 * 2) = 2 * unat (outlen s1) \<and>
         live w2 (output' s1) = Some (outlen s1) \<and>
         (if q = 0 then errno w3 = ENOMEM \<and> live w3 = live w2
          else live w3 = ((live w2)(output' s1 := None))(q \<mapsto> outlen s1 * 2))"
proof -
  note t0 = tracks_reset [OF r, of input inlen]
  from convert_loop_tracks [OF l t0] have t1: "tracks w w1 s1" .
  from convert_loop_exit [OF l t0] have nz: "output' s1 \<noteq> 0" by simp
  note f1 = tracks_facts [OF t1]
  from f1(2) nz have c16: "16 \<le> unat (outlen s1)" by simp
  then have cap: "outlen s1 \<noteq> 0" by auto
  from double_nowrap [OF f1(3)] have dbl: "unat (outlen s1 * 2) = 2 * unat (outlen s1)" .
  with c16 have n2: "outlen s1 * 2 \<noteq> 0" by auto
  from f1(1) nz have lv1: "live w1 (output' s1) = Some (outlen s1)"
    by (simp add: holds_buffer_def)
  with iconv_result [OF first] have lv2: "live w2 (output' s1) = Some (outlen s1)"
    by simp
  have lv3: "if q = 0 then errno w3 = ENOMEM \<and> live w3 = live w2
             else live w3 = ((live w2)(output' s1 := None))(q \<mapsto> outlen s1 * 2)"
  proof (cases "q = 0")
    case True
    from realloc_refused [OF growth True n2] True show ?thesis by simp
  next
    case False
    from realloc_granted [OF growth False] False show ?thesis by simp
  qed
  from flush_outcome [OF t1 nz first growth second] obtain s2 where
    f: "flush E iv w1 s1 =
          (if r1 \<noteq> - 1 then (True, w2, s2)
           else if errno w2 \<noteq> E2BIG then (False, w2, s2)
           else if q = 0 then (False, w3, s2)
           else (r2 \<noteq> - 1, w4, s2))"
    and o: "output' s2 = (if r1 = - 1 \<and> errno w2 = E2BIG \<and> q \<noteq> 0 then q else output' s1)"
    and c: "outbuf s2 = (if r1 = - 1 \<and> errno w2 = E2BIG \<and> q \<noteq> 0 then c2 else c1)"
    by blast
  have main: "if r1 \<noteq> - 1 then delivered E w iv input inlen w2 (output' s1) c1
          else if errno w2 \<noteq> E2BIG then aborted E w iv input inlen w2 (output' s1)
          else if q = 0 then aborted E w iv input inlen w3 (output' s1)
          else if r2 = - 1 then aborted E w iv input inlen w4 q
          else delivered E w iv input inlen w4 q c2"
  proof -
    consider (a) "r1 \<noteq> - 1" | (b) "r1 = - 1" "errno w2 \<noteq> E2BIG"
      | (c) "r1 = - 1" "errno w2 = E2BIG" "q = 0"
      | (d) "r1 = - 1" "errno w2 = E2BIG" "q \<noteq> 0" "r2 = - 1"
      | (e) "r1 = - 1" "errno w2 = E2BIG" "q \<noteq> 0" "r2 \<noteq> - 1"
      by blast
    then show ?thesis
    proof cases
      case a
      with f have fl: "flush E iv w1 s1 = (True, w2, s2)" by simp
      from convert_outcome [OF r l fl] ok
      have "convert E w iv input inlen = Some (finish E w2 s2)" by simp
      from delivered_intro [OF this flush_tracks [OF fl t1]] a o c show ?thesis by simp
    next
      case b
      with f have fl: "flush E iv w1 s1 = (False, w2, s2)" by simp
      from convert_outcome [OF r l fl] ok
      have "convert E w iv input inlen = Some (error_exit w2 s2)" by simp
      from aborted_intro [OF this flush_tracks [OF fl t1]] b o show ?thesis by simp
    next
      case c
      with f have fl: "flush E iv w1 s1 = (False, w3, s2)" by simp
      from convert_outcome [OF r l fl] ok
      have "convert E w iv input inlen = Some (error_exit w3 s2)" by simp
      from aborted_intro [OF this flush_tracks [OF fl t1]] c o show ?thesis by simp
    next
      case d
      with f have fl: "flush E iv w1 s1 = (False, w4, s2)" by simp
      from convert_outcome [OF r l fl] ok
      have "convert E w iv input inlen = Some (error_exit w4 s2)" by simp
      from aborted_intro [OF this flush_tracks [OF fl t1]] d o show ?thesis by simp
    next
      case e
      with f have fl: "flush E iv w1 s1 = (True, w4, s2)" by simp
      from convert_outcome [OF r l fl] ok
      have "convert E w iv input inlen = Some (finish E w4 s2)" by simp
      from delivered_intro [OF this flush_tracks [OF fl t1]] e o c show ?thesis by simp
    qed
  qed
  from iconv_result [OF first]
  have k2: "calls w2 = calls w1 @ [Iconv None (Some (outbuf s1, outbufsz s1)) r1 (errno w2)]"
    by simp
  from realloc_result [OF growth]
  have k3: "calls w3 = calls w2 @ [Realloc (output' s1) (outlen s1 * 2) q]"
    by simp
  from iconv_result [OF second]
  have k4: "calls w4 = calls w3 @ [Iconv None (Some (q + (c1 - output' s1), outlen s1)) r2 (errno w4)]"
    by simp
  from main k2 k3 k4 c16 dbl lv2 lv3 show ?thesis by (intro conjI)
qed

text \<open>
  C2. When the loop has ended with a successful call of the primitive, the input is
  consumed, and \<^verbatim>\<open>convert\<close> calls the flush form of the primitive at the write cursor. If
  that call reports no failure, the conversion delivers. If it reports a failure other
  than \<^verbatim>\<open>E2BIG\<close>, the conversion is aborted. If it reports \<^verbatim>\<open>E2BIG\<close>, there is one call
  of \<^verbatim>\<open>realloc\<close>, on the storage and for twice the capacity, which is at least 16 and
  does not wrap around; if it is refused the conversion is aborted, with \<^verbatim>\<open>ENOMEM\<close>; if
  it is granted there is one more call of the flush form, at the same offset in the new
  block and with as much space as the capacity has grown by, and the conversion is
  aborted if that call reports a failure, whatever it is, and delivers if not. No other
  call is made before the final \<^verbatim>\<open>free\<close> or shrink; an aborted conversion has freed the
  buffer and throws the error of the signal in \<^verbatim>\<open>errno\<close>.
\<close>

theorem flush_once_retry_once:
  assumes r: "iconv E w iv None None = (r0, i0, o0, w0)"
    and l: "convert_loop E iv w0 (init_vars input inlen) = Some (True, w1, s1)"
    and ok: "rv s1 \<noteq> - 1"
    and first: "iconv E w1 iv None (Some (outbuf s1, outbufsz s1)) = (r1, i1, Some (c1, n1), w2)"
    and growth: "realloc E w2 (output' s1) (outlen s1 * 2) = (q, w3)"
    and second: "iconv E w3 iv None (Some (q + (c1 - output' s1), outlen s1)) =
                   (r2, i2, Some (c2, n2), w4)"
  shows "(if r1 \<noteq> - 1 then delivered E w iv input inlen w2 (output' s1) c1
          else if errno w2 \<noteq> E2BIG then aborted E w iv input inlen w2 (output' s1)
          else if q = 0 then aborted E w iv input inlen w3 (output' s1)
          else if r2 = - 1 then aborted E w iv input inlen w4 q
          else delivered E w iv input inlen w4 q c2) \<and>
         calls w2 = calls w1 @ [Iconv None (Some (outbuf s1, outbufsz s1)) r1 (errno w2)] \<and>
         calls w3 = calls w2 @ [Realloc (output' s1) (outlen s1 * 2) q] \<and>
         calls w4 = calls w3 @ [Iconv None (Some (q + (c1 - output' s1), outlen s1)) r2 (errno w4)] \<and>
         16 \<le> unat (outlen s1) \<and> unat (outlen s1 * 2) = 2 * unat (outlen s1) \<and>
         live w2 (output' s1) = Some (outlen s1) \<and>
         (if q = 0 then errno w3 = ENOMEM \<and> live w3 = live w2
          else live w3 = ((live w2)(output' s1 := None))(q \<mapsto> outlen s1 * 2))"
  using assms by (rule after_loop)


section \<open>The first pass of the loop\<close>

text \<open>
  The body of a \<^verbatim>\<open>do ... while\<close> loop runs before its condition is read: whatever the
  input, the loop starts with a request for 16 bytes and, when the request is granted,
  a call of the primitive on the whole input.
\<close>

lemma first_pass:
  assumes alloc: "realloc E w0 0 16 = (q, w1)"
    and step: "iconv E w1 iv (Some (input, inlen)) (Some (q, 16)) = (r1, i1, Some (c1, n1), w2)"
  shows "convert_loop E iv w0 (init_vars input inlen) =
           (if q = 0 then Some (False, w1, init_vars input inlen)
            else if r1 = - 1 \<and> errno w2 = E2BIG
            then convert_loop E iv w2
                   ((set_out (Some (c1, n1))
                      (set_in i1 ((init_vars input inlen)
                         \<lparr>outbufsz := 16, outbuf := q, outlen := 16, output' := q\<rparr>)))\<lparr>rv := r1\<rparr>)
            else Some (True, w2,
                   (set_out (Some (c1, n1))
                      (set_in i1 ((init_vars input inlen)
                         \<lparr>outbufsz := 16, outbuf := q, outlen := 16, output' := q\<rparr>)))\<lparr>rv := r1\<rparr>))"
proof -
  let ?s0 = "init_vars input inlen"
  let ?sa = "?s0\<lparr>outbufsz := 16, outbuf := q, outlen := 16, output' := q\<rparr>"
  from alloc have g: "grow E w0 ?s0 = (if q \<noteq> 0 then (1, w1, ?sa) else (0, w1, ?s0))"
    by (simp add: grow_def init_vars_def)
  have sa: "inbuf ?sa = input" "inbufsz ?sa = inlen" "outbuf ?sa = q" "outbufsz ?sa = 16"
    by (simp_all add: init_vars_def)
  show ?thesis
  proof (cases "q = 0")
    case True
    with g show ?thesis
      by (simp add: convert_loop.simps [of E iv w0 ?s0])
  next
    case False
    with g step sa show ?thesis
      by (simp add: convert_loop.simps [of E iv w0 ?s0] Let_def)
  qed
qed


lemma convert_extends_loop:
  assumes r: "iconv E w iv None None = (r0, i0, o0, w0)"
    and l: "convert_loop E iv w0 (init_vars input inlen) = Some (looped, w1, s1)"
    and c: "convert E w iv input inlen = Some (rc, w', s')"
  shows "\<exists>cs. calls w' = calls w1 @ cs" and "\<not> looped \<longrightarrow> rc = 0"
proof -
  obtain fok w2 s2 where f: "flush E iv w1 s1 = (fok, w2, s2)"
    by (cases "flush E iv w1 s1")
  note co = convert_outcome [OF r l f]
  from flush_extends [OF f] obtain cs2 where k2: "calls w2 = calls w1 @ cs2" ..
  consider "error_exit w1 s1 = (rc, w', s')" "\<not> looped \<or> rv s1 = - 1"
    | "error_exit w2 s2 = (rc, w', s')" "looped"
    | "finish E w2 s2 = (rc, w', s')" "looped"
    using co c by (auto split: if_splits)
  then have "(\<exists>cs. calls w' = calls w1 @ cs) \<and> (\<not> looped \<longrightarrow> rc = 0)"
  proof cases
    case 1
    from error_exit_effect [OF 1(1)] show ?thesis by simp
  next
    case 2
    from error_exit_effect [OF 2(1)] k2 2(2) show ?thesis by simp
  next
    case 3
    from finish_effect [OF 3(1)] obtain p where
      "realloc E w2 (output' s2) (outbuf s2 - output' s2) = (p, w')"
      by blast
    from realloc_result [OF this] k2 3(2) show ?thesis by simp
  qed
  then show "\<exists>cs. calls w' = calls w1 @ cs" and "\<not> looped \<longrightarrow> rc = 0"
    by simp_all
qed

lemma convert_first_pass:
  assumes c: "convert E w iv input inlen = Some (rc, w', s')"
  shows "\<exists>r0 e0 q rest. calls w' = calls w @ Iconv None None r0 e0 # Realloc 0 16 q # rest \<and>
           (if q = 0 then rc = 0
            else \<exists>r e rest'. rest = Iconv (Some (input, inlen)) (Some (q, 16)) r e # rest')"
proof -
  obtain r0 i0 o0 w0 where r: "iconv E w iv None None = (r0, i0, o0, w0)"
    by (cases "iconv E w iv None None")
  from iconv_result [OF r] have k0: "calls w0 = calls w @ [Iconv None None r0 (errno w0)]"
    by simp
  obtain q w1 where alloc: "realloc E w0 0 16 = (q, w1)"
    by (cases "realloc E w0 0 16")
  from realloc_result [OF alloc] have k1: "calls w1 = calls w0 @ [Realloc 0 16 q]"
    by simp
  obtain r1 i1 o1 w2 where
    st: "iconv E w1 iv (Some (input, inlen)) (Some (q, 16)) = (r1, i1, o1, w2)"
    by (cases "iconv E w1 iv (Some (input, inlen)) (Some (q, 16))")
  from iconv_cursor [OF st] obtain c1 n1 where o1: "o1 = Some (c1, n1)"
    by auto
  note step = st [unfolded o1]
  from iconv_result [OF step]
  have k2: "calls w2 = calls w1 @ [Iconv (Some (input, inlen)) (Some (q, 16)) r1 (errno w2)]"
    by simp
  from c r obtain looped wl sl where
    l: "convert_loop E iv w0 (init_vars input inlen) = Some (looped, wl, sl)"
    by (auto simp: convert_def Let_def split: option.splits)
  from convert_extends_loop [OF r l c] obtain cs where
    kc: "calls w' = calls wl @ cs" and fl: "\<not> looped \<longrightarrow> rc = 0"
    by blast
  note fp = first_pass [OF alloc step]
  show ?thesis
  proof (cases "q = 0")
    case True
    with fp l have "wl = w1" "\<not> looped" by simp_all
    with kc k0 k1 fl True
    have "calls w' = calls w @ Iconv None None r0 (errno w0) # Realloc 0 16 q # cs \<and>
           (if q = 0 then rc = 0
            else \<exists>r e rest'. cs = Iconv (Some (input, inlen)) (Some (q, 16)) r e # rest')"
      by simp
    then show ?thesis by (intro exI)
  next
    case False
    let ?sb = "(set_out (Some (c1, n1))
                      (set_in i1 ((init_vars input inlen)
                         \<lparr>outbufsz := 16, outbuf := q, outlen := 16, output' := q\<rparr>)))\<lparr>rv := r1\<rparr>"
    have "\<exists>cs1. calls wl = calls w2 @ cs1"
    proof (cases "r1 = - 1 \<and> errno w2 = E2BIG")
      case True
      with fp l False have "convert_loop E iv w2 ?sb = Some (looped, wl, sl)"
        by simp
      then show ?thesis by (rule convert_loop_extends)
    next
      case no: False
      with fp l False have "wl = w2" by auto
      then show ?thesis by simp
    qed
    then obtain cs1 where "calls wl = calls w2 @ cs1" ..
    with kc k0 k1 k2 False
    have "calls w' = calls w @ Iconv None None r0 (errno w0) # Realloc 0 16 q #
            (Iconv (Some (input, inlen)) (Some (q, 16)) r1 (errno w2) # (cs1 @ cs)) \<and>
          (if q = 0 then rc = 0
           else \<exists>r e rest'. Iconv (Some (input, inlen)) (Some (q, 16)) r1 (errno w2) # (cs1 @ cs) =
                  Iconv (Some (input, inlen)) (Some (q, 16)) r e # rest')"
      by simp
    then show ?thesis by (intro exI)
  qed
qed

section \<open>An empty input\<close>




section \<open>Runs in the concrete environment\<close>

lemmas run_defs = convert_def convert_loop.simps flush_def finish_def error_exit_def free_def
  grow_def realloc_def iconv_def set_in_def set_out_def init_vars_def
  demo_env_def demo_iconv_def world0_def Let_def E2BIG_def EINVAL_def EILSEQ_def ENOMEM_def

text \<open>An illegal byte: the buffer is allocated, the primitive fails, the buffer is freed.\<close>

lemma demo_illegal_run:
  "\<exists>w'. Iconv_Convert (demo_env 100 []) world0 \<lparr>conv' = 1\<rparr> [1, 2, 0xFF] 3 =
           Some (Inl (ErrnoException EILSEQ ''iconv'' ''Illegal character sequence.''), w') \<and>
      calls w' = [Iconv None None 0 0, Realloc 0 16 8192,
                  Iconv (Some ([1, 2, 0xFF], 3)) (Some (8192, 16)) (- 1) EILSEQ, Free 8192]"
  by (simp add: Iconv_Convert_def run_defs)



text \<open>Sixteen bytes and a flush sequence of seventeen: the flush finds no space, the
  buffer grows once, and the second flush fails for want of one byte.\<close>

lemma demo_long_trailer_run:
  "\<exists>w'. Iconv_Convert (demo_env 100 trailer17) world0 \<lparr>conv' = 1\<rparr> input16 16 =
           Some (Inl (ErrnoException E2BIG ''iconv'' []), w') \<and>
      calls w' = [Iconv None None 0 0, Realloc 0 16 8192,
                  Iconv (Some (input16, 16)) (Some (8192, 16)) 0 0,
                  Iconv None (Some (8208, 0)) (- 1) E2BIG,
                  Realloc 8192 32 20480,
                  Iconv None (Some (20496, 16)) (- 1) E2BIG,
                  Free 20480]"
  by (simp add: Iconv_Convert_def run_defs input16_def trailer17_def)

text \<open>Sixteen bytes and a flush sequence of one: the flush finds no space, the buffer
  grows once, the second flush succeeds.\<close>

lemma demo_retry_loop:
  "\<exists>r0 i0 o0 w0 w1 s1.
      iconv (demo_env 100 [0x2E]) world0 1 None None = (r0, i0, o0, w0) \<and>
      convert_loop (demo_env 100 [0x2E]) 1 w0 (init_vars input16 16) = Some (True, w1, s1) \<and>
      rv s1 \<noteq> - 1 \<and> outbuf s1 = 8208 \<and> outbufsz s1 = 0 \<and> output' s1 = 8192 \<and> outlen s1 = 16 \<and>
      errno w1 = 0 \<and>
      calls w1 = [Iconv None None 0 0, Realloc 0 16 8192,
                  Iconv (Some (input16, 16)) (Some (8192, 16)) 0 0]"
  by (simp add: run_defs input16_def)

lemma demo_retry_run:
  "\<exists>w'. Iconv_Convert (demo_env 100 [0x2E]) world0 \<lparr>conv' = 1\<rparr> input16 16 =
           Some (Inr (Buffer 28672 17), w') \<and>
      calls w' = [Iconv None None 0 0, Realloc 0 16 8192,
                  Iconv (Some (input16, 16)) (Some (8192, 16)) 0 0,
                  Iconv None (Some (8208, 0)) (- 1) E2BIG,
                  Realloc 8192 32 20480,
                  Iconv None (Some (20496, 16)) 0 E2BIG,
                  Realloc 20480 17 28672]"
  by (simp add: Iconv_Convert_def run_defs input16_def)


section \<open>The theorems on concrete runs\<close>

theorem grow_contract_witness:
  "\<exists>w1 (s1 :: convert_vars) rc w' b'.
      tracks world0 w1 s1 \<and> outlen s1 = 16 \<and> outbuf s1 - output' s1 = 16 \<and>
      grow (demo_env 100 [0x2E]) w1 s1 = (rc, w', b') \<and> rc = 1 \<and>
      unat (outlen b') = 32 \<and> output' b' = 16384 \<and>
      calls w' = calls w1 @ [Realloc 8192 32 16384] \<and>
      mem w' (output' b' + 15) = mem w1 (output' s1 + 15) \<and>
      outbuf b' - output' b' = 16 \<and> tracks world0 w' b'"
proof -
  let ?E = "demo_env 100 [0x2E] :: unit env"
  from demo_retry_loop obtain r0 i0 o0 w0 w1 s1 where
    r: "iconv ?E world0 1 None None = (r0, i0, o0, w0)"
    and l: "convert_loop ?E 1 w0 (init_vars input16 16) = Some (True, w1, s1)"
    and s1: "outbuf s1 = 8208" "outbufsz s1 = 0" "output' s1 = 8192" "outlen s1 = 16"
    and k1: "calls w1 = [Iconv None None 0 0, Realloc 0 16 8192,
                  Iconv (Some (input16, 16)) (Some (8192, 16)) 0 0]"
    by blast
  from convert_loop_tracks [OF l tracks_reset [OF r]] have t: "tracks world0 w1 s1" .
  obtain rc w' b' where g: "grow ?E w1 s1 = (rc, w', b')"
    by (cases "grow ?E w1 s1")
  have "fst (grow ?E w1 s1) = 1" "output' (snd (snd (grow ?E w1 s1))) = 16384"
    by (simp_all add: grow_def realloc_def demo_env_def Let_def s1 k1)
  with g have rc: "rc = 1" and o: "output' b' = 16384"
    by simp_all
  from grow_contract [OF t g] obtain q where
    k: "calls w' = calls w1 @ [Realloc (output' s1) (of_nat (max 16 (2 * unat (outlen s1)))) q]"
    and rq: "rc = (if q = 0 then 0 else 1)"
    and cap: "unat (outlen b') = (if q = 0 then unat (outlen s1) else max 16 (2 * unat (outlen s1)))"
    and bytes: "\<forall>i < unat (outbuf s1 - output' s1).
                mem w' (output' b' + of_nat i) = mem w1 (output' s1 + of_nat i)"
    and off: "outbuf b' - output' b' = outbuf s1 - output' s1"
    and blk: "if q = 0 then b' = s1 \<and> live w' = live w1 \<and> errno w' = ENOMEM
              else output' b' = q \<and> live w' q = Some (outlen b')"
    and t': "tracks world0 w' b'"
    by blast
  from rq rc have q: "q \<noteq> 0" by (auto split: if_splits)
  with blk o have q': "q = 16384" by simp
  from k q' s1 have one: "calls w' = calls w1 @ [Realloc 8192 32 16384]"
    by simp
  from cap q s1 have two: "unat (outlen b') = 32" by simp
  from bytes [rule_format, of 15] s1
  have three: "mem w' (output' b' + 15) = mem w1 (output' s1 + 15)"
    by simp
  from off s1 have four: "outbuf b' - output' b' = 16" by simp
  from s1 have five: "outbuf s1 - output' s1 = 16" by simp
  from t s1(4) five g rc two o one three four t'
  have "tracks world0 w1 s1 \<and> outlen s1 = 16 \<and> outbuf s1 - output' s1 = 16 \<and>
      grow ?E w1 s1 = (rc, w', b') \<and> rc = 1 \<and>
      unat (outlen b') = 32 \<and> output' b' = 16384 \<and>
      calls w' = calls w1 @ [Realloc 8192 32 16384] \<and>
      mem w' (output' b' + 15) = mem w1 (output' s1 + 15) \<and>
      outbuf b' - output' b' = 16 \<and> tracks world0 w' b'"
    by (intro conjI)
  then show ?thesis by (intro exI)
qed

theorem flush_once_retry_once_witness:
  "\<exists>(w1 :: unit world) w4. delivered (demo_env 100 [0x2E]) world0 1 input16 16 w4 20480 20497 \<and>
      calls w4 = calls w1 @ [Iconv None (Some (8208, 0)) (- 1) E2BIG, Realloc 8192 32 20480,
                             Iconv None (Some (20496, 16)) 0 E2BIG] \<and>
      live w4 20480 = Some 32"
proof -
  let ?E = "demo_env 100 [0x2E] :: unit env"
  from demo_retry_loop obtain r0 i0 o0 w0 w1 s1 where
    r: "iconv ?E world0 1 None None = (r0, i0, o0, w0)"
    and l: "convert_loop ?E 1 w0 (init_vars input16 16) = Some (True, w1, s1)"
    and ok: "rv s1 \<noteq> - 1"
    and s1: "outbuf s1 = 8208" "outbufsz s1 = 0" "output' s1 = 8192" "outlen s1 = 16"
    and e1: "errno w1 = 0"
    and k1: "calls w1 = [Iconv None None 0 0, Realloc 0 16 8192,
                  Iconv (Some (input16, 16)) (Some (8192, 16)) 0 0]"
    by blast
  obtain w2 where
    first: "iconv ?E w1 1 None (Some (outbuf s1, outbufsz s1)) = (- 1, None, Some (8208, 0), w2)"
    by (simp add: iconv_def demo_env_def demo_iconv_def Let_def s1)
  from first have e2: "errno w2 = E2BIG"
    by (auto simp: iconv_def demo_env_def demo_iconv_def Let_def s1)
  from iconv_result [OF first] k1 have n2: "length (calls w2) = 4"
    by simp
  obtain w3 where growth: "realloc ?E w2 (output' s1) (outlen s1 * 2) = (20480, w3)"
    by (simp add: realloc_def demo_env_def Let_def s1 n2)
  obtain w4 where
    second: "iconv ?E w3 1 None (Some (20480 + (8208 - output' s1), outlen s1)) =
               (0, None, Some (20497, 15), w4)"
    by (simp add: iconv_def demo_env_def demo_iconv_def Let_def s1)
  from iconv_result [OF second] realloc_result [OF growth] realloc_granted [OF growth]
  have e4: "errno w4 = E2BIG" and l4: "live w4 20480 = Some 32"
    using e2 s1 by simp_all
  note th = flush_once_retry_once [OF r l ok first growth second]
  from th e2 have d: "delivered ?E world0 1 input16 16 w4 20480 20497"
    by simp
  from th e2 e4 s1
  have k4: "calls w4 = calls w1 @ [Iconv None (Some (8208, 0)) (- 1) E2BIG, Realloc 8192 32 20480,
                             Iconv None (Some (20496, 16)) 0 E2BIG]"
    by simp
  from d k4 l4 show ?thesis by blast
qed





section \<open>The shrink to nothing\<close>

text \<open>
  C5, at the input where the code breaks it. The comment at the shrink says that it
  cannot fail, and the code keeps the old pointer when \<^verbatim>\<open>realloc\<close> returns null,
  taking null for a failure that left the block alone. For an output of length zero the
  request is \<^verbatim>\<open>realloc(output, 0)\<close>, which a library that frees on size zero answers with
  null after releasing the block. So an empty input to an encoding without a flush
  sequence returns, where the library is glibc, a \<^verbatim>\<open>Buffer\<close> over a block that is no
  longer allocated, and \<^verbatim>\<open>FreeMemory\<close> will free it a second time. For every other
  length the shrink does what the claim says (\<open>delivered_intro\<close>).
\<close>

theorem shrink_to_nothing_returns_released_block:
  "map_option fst empty_run_stateless = Some (Inr (Buffer 8192 0)) \<and>
   map_option (calls \<circ> snd) empty_run_stateless =
     Some [Iconv None None 0 0, Realloc 0 16 8192, Iconv (Some ([], 0)) (Some (8192, 16)) 0 0,
           Iconv None (Some (8192, 16)) 0 0, Realloc 8192 0 0] \<and>
   live (snd (the empty_run_stateless)) 8192 = None \<and>
   \<not> owns (snd (the empty_run_stateless)) (Buffer 8192 0)"
  by (simp add: empty_run_stateless_def Iconv_Convert_def run_defs)


section \<open>Encoding names\<close>

lemma tolower_c_stays:
  "tolower_c x = CHR ''1'' \<longleftrightarrow> x = CHR ''1''"
  "tolower_c x = CHR ''2'' \<longleftrightarrow> x = CHR ''2''"
  "tolower_c x = CHR ''3'' \<longleftrightarrow> x = CHR ''3''"
  "tolower_c x = CHR ''6'' \<longleftrightarrow> x = CHR ''6''"
  "tolower_c x = CHR ''7'' \<longleftrightarrow> x = CHR ''7''"
  "tolower_c x = CHR ''8'' \<longleftrightarrow> x = CHR ''8''"
  "tolower_c x = CHR ''-'' \<longleftrightarrow> x = CHR ''-''"
  "tolower_c x = CHR 0x00 \<longleftrightarrow> x = CHR 0x00"
  by (auto simp: tolower_c_def)

lemma tolower_c_literals:
  "map tolower_c ''UTF'' = ''utf''"
  "map tolower_c ''6LE'' = ''6le''" "map tolower_c ''6BE'' = ''6be''"
  "map tolower_c ''2LE'' = ''2le''" "map tolower_c ''2BE'' = ''2be''"
  "map tolower_c ''UTF16'' = ''utf16''" "map tolower_c ''UTF16LE'' = ''utf16le''"
  "map tolower_c ''UTF16BE'' = ''utf16be''" "map tolower_c ''UTF32'' = ''utf32''"
  "map tolower_c ''UTF32LE'' = ''utf32le''" "map tolower_c ''UTF32BE'' = ''utf32be''"
  "map tolower_c ''UTF7'' = ''utf7''" "map tolower_c ''UTF8'' = ''utf8''"
  by (simp_all add: tolower_c_def)

lemma tolower_c_chars:
  "tolower_c CHR ''U'' = CHR ''u''" "tolower_c CHR ''T'' = CHR ''t''" "tolower_c CHR ''F'' = CHR ''f''"
  "tolower_c CHR ''L'' = CHR ''l''" "tolower_c CHR ''E'' = CHR ''e''" "tolower_c CHR ''B'' = CHR ''b''"
  "tolower_c CHR ''1'' = CHR ''1''" "tolower_c CHR ''2'' = CHR ''2''" "tolower_c CHR ''3'' = CHR ''3''"
  "tolower_c CHR ''6'' = CHR ''6''" "tolower_c CHR ''7'' = CHR ''7''" "tolower_c CHR ''8'' = CHR ''8''"
  by (simp_all add: tolower_c_def)

lemma of_char_zero: "(of_char c :: int) = 0 \<longleftrightarrow> c = CHR 0x00"
proof -
  have "(of_char (CHR 0x00) :: int) = 0" by simp
  then have "(of_char c :: int) = 0 \<longleftrightarrow> (of_char c :: int) = of_char (CHR 0x00)" by simp
  then show ?thesis by (simp only: of_char_eq_iff)
qed

text \<open>On C strings the comparisons return 0 exactly for equal strings.\<close>

lemma strcmp_zero:
  "CHR 0x00 \<notin> set a \<Longrightarrow> CHR 0x00 \<notin> set b \<Longrightarrow> strcmp a b = 0 \<longleftrightarrow> a = b"
  by (induction a b rule: strcmp.induct) (auto simp: of_char_zero)

lemma strcasecmp_zero:
  "CHR 0x00 \<notin> set a \<Longrightarrow> CHR 0x00 \<notin> set b \<Longrightarrow>
     strcasecmp a b = 0 \<longleftrightarrow> map tolower_c a = map tolower_c b"
  by (induction a b rule: strcasecmp.induct) (auto simp: of_char_zero tolower_c_stays)

lemma digit_string:
  "map tolower_c s = ''6'' \<longleftrightarrow> s = ''6''" "map tolower_c s = ''2'' \<longleftrightarrow> s = ''2''"
  by (auto simp: tolower_c_stays map_eq_Cons_conv)

lemma string_shape:
  obtains "name = []" | a where "name = [a]" | a b where "name = [a, b]"
    | a b c where "name = [a, b, c]" | a b c d rest where "name = a # b # c # d # rest"
proof (cases name)
  case Nil
  then show ?thesis using that by blast
next
  case (Cons a l1)
  then show ?thesis
  proof (cases l1)
    case Nil
    with Cons show ?thesis using that by blast
  next
    case (Cons b l2)
    note c2 = this
    show ?thesis
    proof (cases l2)
      case Nil
      with c2 \<open>name = a # l1\<close> show ?thesis using that by blast
    next
      case (Cons c l3)
      with c2 \<open>name = a # l1\<close> show ?thesis using that by (cases l3) blast+
    qed
  qed
qed

lemma strncasecmp_utf:
  assumes "CHR 0x00 \<notin> set [a, b, c]"
  shows "strncasecmp (a # b # c # rest) ''UTF'' 3 = 0 \<longleftrightarrow>
           tolower_c a = CHR ''u'' \<and> tolower_c b = CHR ''t'' \<and> tolower_c c = CHR ''f''"
proof -
  have "strncasecmp (a # b # c # rest) ''UTF'' 3 = strcasecmp [a, b, c] ''UTF''"
    by (simp add: strncasecmp_def del: strcasecmp.simps)
  moreover have "strcasecmp [a, b, c] ''UTF'' = 0 \<longleftrightarrow> map tolower_c [a, b, c] = map tolower_c ''UTF''"
    using assms by (intro strcasecmp_zero) simp_all
  ultimately show ?thesis
    by (simp add: tolower_c_chars del: strcasecmp.simps)
qed

text \<open>The lookup among the aliases, and the code on a name of four characters or more,
  as chains of tests on the name in lower case.\<close>

lemma canonical_chain:
  "canonical name =
     (let l = map tolower_c name
      in if l = ''utf16'' then ''UTF-16'' else if l = ''utf16le'' then ''UTF-16LE''
         else if l = ''utf16be'' then ''UTF-16BE'' else if l = ''utf32'' then ''UTF-32''
         else if l = ''utf32le'' then ''UTF-32LE'' else if l = ''utf32be'' then ''UTF-32BE''
         else if l = ''utf7'' then ''UTF-7'' else if l = ''utf8'' then ''UTF-8'' else name)"
  unfolding canonical_def utf_aliases_def same_nocase_def Let_def
  by (simp add: tolower_c_literals del: list.map)

lemma fix_chain:
  assumes n3: "CHR 0x00 \<notin> set [a, b, c]" and r: "CHR 0x00 \<notin> set rest"
  shows "fixEncodingName (a # b # c # d # rest) =
     (if (tolower_c a = CHR ''u'' \<and> tolower_c b = CHR ''t'' \<and> tolower_c c = CHR ''f'') \<and> d \<noteq> CHR ''-''
      then
           (if d = CHR ''1'' then
              (if rest = ''6'' then ''UTF-16''
               else if map tolower_c rest = ''6le'' then ''UTF-16LE''
               else if map tolower_c rest = ''6be'' then ''UTF-16BE''
               else a # b # c # d # rest)
            else if d = CHR ''3'' then
              (if rest = ''2'' then ''UTF-32''
               else if map tolower_c rest = ''2le'' then ''UTF-32LE''
               else if map tolower_c rest = ''2be'' then ''UTF-32BE''
               else a # b # c # d # rest)
            else if d = CHR ''7'' then (if rest = [] then ''UTF-7'' else a # b # c # d # rest)
            else if d = CHR ''8'' then (if rest = [] then ''UTF-8'' else a # b # c # d # rest)
            else a # b # c # d # rest)
      else a # b # c # d # rest)"
proof -
  have z: "strcmp rest ''6'' = 0 \<longleftrightarrow> rest = ''6''" "strcmp rest ''2'' = 0 \<longleftrightarrow> rest = ''2''"
    using r by (simp_all add: strcmp_zero del: strcmp.simps)
  have y: "strcasecmp rest ''6LE'' = 0 \<longleftrightarrow> map tolower_c rest = map tolower_c ''6LE''"
    "strcasecmp rest ''6BE'' = 0 \<longleftrightarrow> map tolower_c rest = map tolower_c ''6BE''"
    "strcasecmp rest ''2LE'' = 0 \<longleftrightarrow> map tolower_c rest = map tolower_c ''2LE''"
    "strcasecmp rest ''2BE'' = 0 \<longleftrightarrow> map tolower_c rest = map tolower_c ''2BE''"
    using r by (simp_all add: strcasecmp_zero del: strcasecmp.simps list.map)
  have c: "char_at (a # b # c # d # rest) 3 = d"
    by (simp add: char_at_def)
  have dr: "drop 4 (a # b # c # d # rest) = rest"
    by simp
  show ?thesis
    unfolding fixEncodingName_def Let_def c dr z y strncasecmp_utf [OF n3] tolower_c_literals
    by (rule refl)
qed

lemma fix_four_or_more:
  assumes nul: "CHR 0x00 \<notin> set (a # b # c # d # rest)"
  shows "fixEncodingName (a # b # c # d # rest) = canonical (a # b # c # d # rest)"
proof -
  from nul have n3: "CHR 0x00 \<notin> set [a, b, c]" and r: "CHR 0x00 \<notin> set rest"
    by auto
  note norm = fix_chain [OF n3 r] canonical_chain Let_def
  show ?thesis
  proof (cases "tolower_c a = CHR ''u'' \<and> tolower_c b = CHR ''t'' \<and> tolower_c c = CHR ''f''")
    case False
    then consider "tolower_c a \<noteq> CHR ''u''" | "tolower_c b \<noteq> CHR ''t''" | "tolower_c c \<noteq> CHR ''f''"
      by blast
    then show ?thesis
      unfolding norm by cases simp_all
  next
    case True
    consider "d = CHR ''1''" | "d = CHR ''3''" | "d = CHR ''7''" | "d = CHR ''8''"
      | "d \<noteq> CHR ''1''" "d \<noteq> CHR ''3''" "d \<noteq> CHR ''7''" "d \<noteq> CHR ''8''"
      by blast
    then show ?thesis
    proof cases
      case 1
      with True show ?thesis
        unfolding norm by (simp add: tolower_c_chars digit_string)
    next
      case 2
      with True show ?thesis
        unfolding norm by (simp add: tolower_c_chars digit_string)
    next
      case 3
      with True show ?thesis
        unfolding norm by (simp add: tolower_c_chars)
    next
      case 4
      with True show ?thesis
        unfolding norm by (simp add: tolower_c_chars)
    next
      case 5
      with True show ?thesis
        unfolding norm by (simp add: tolower_c_stays)
    qed
  qed
qed

text \<open>A name of fewer than four characters is no alias, and the code returns it.\<close>

lemma fix_three:
  assumes nul: "CHR 0x00 \<notin> set [a, b, c]"
  shows "fixEncodingName [a, b, c] = canonical [a, b, c]"
  unfolding fixEncodingName_def canonical_def utf_aliases_def same_nocase_def
    strncasecmp_def char_at_def Let_def
  using nul
  by (simp add: strcasecmp_zero strcmp_zero tolower_c_literals tolower_c_stays digit_string)

lemma fix_two:
  assumes nul: "CHR 0x00 \<notin> set [a, b]"
  shows "fixEncodingName [a, b] = canonical [a, b]"
  unfolding fixEncodingName_def canonical_def utf_aliases_def same_nocase_def
    strncasecmp_def char_at_def Let_def
  using nul
  by (simp add: strcasecmp_zero strcmp_zero tolower_c_literals tolower_c_stays digit_string)

lemma fix_one:
  assumes nul: "CHR 0x00 \<notin> set [a]"
  shows "fixEncodingName [a] = canonical [a]"
  unfolding fixEncodingName_def canonical_def utf_aliases_def same_nocase_def
    strncasecmp_def char_at_def Let_def
  using nul
  by (simp add: strcasecmp_zero strcmp_zero tolower_c_literals tolower_c_stays digit_string)

lemma fix_empty: "fixEncodingName [] = canonical []"
  unfolding fixEncodingName_def canonical_def utf_aliases_def same_nocase_def
    strncasecmp_def char_at_def Let_def
  by (simp add: strcasecmp_zero strcmp_zero tolower_c_literals tolower_c_stays digit_string)

text \<open>
  C8. For a name that is a C string (no NUL inside), \<^verbatim>\<open>fixEncodingName\<close> returns the
  canonical form of the alias the name is, letters compared without regard to case
  (\<open>UTF16\<close>, \<open>UTF16LE\<close>, \<open>UTF16BE\<close>, \<open>UTF32\<close>, \<open>UTF32LE\<close>, \<open>UTF32BE\<close>, \<open>UTF7\<close> and
  \<open>UTF8\<close> become \<open>UTF-16\<close>, \<open>UTF-16LE\<close>, \<open>UTF-16BE\<close>, \<open>UTF-32\<close>, \<open>UTF-32LE\<close>,
  \<open>UTF-32BE\<close>, \<open>UTF-7\<close> and \<open>UTF-8\<close>), and returns every other name as it is; in
  particular a name whose fourth character is \<open>-\<close> is returned as it is.
\<close>

theorem fixEncodingName_canonical:
  assumes nul: "CHR 0x00 \<notin> set name"
  shows "fixEncodingName name = canonical name \<and>
         (char_at name 3 = CHR ''-'' \<longrightarrow> fixEncodingName name = name)"
proof
  show "fixEncodingName name = canonical name"
  proof (cases name rule: string_shape)
    case 1
    then show ?thesis by (simp only: fix_empty)
  next
    case (2 a)
    from nul have "CHR 0x00 \<notin> set [a]"
      unfolding 2 .
    then show ?thesis
      unfolding 2 by (rule fix_one)
  next
    case (3 a b)
    from nul have "CHR 0x00 \<notin> set [a, b]"
      unfolding 3 .
    then show ?thesis
      unfolding 3 by (rule fix_two)
  next
    case (4 a b c)
    from nul have "CHR 0x00 \<notin> set [a, b, c]"
      unfolding 4 .
    then show ?thesis
      unfolding 4 by (rule fix_three)
  next
    case (5 a b c d rest)
    from nul have "CHR 0x00 \<notin> set (a # b # c # d # rest)"
      unfolding 5 .
    then show ?thesis
      unfolding 5 by (rule fix_four_or_more)
  qed
  show "char_at name 3 = CHR ''-'' \<longrightarrow> fixEncodingName name = name"
    by (simp add: fixEncodingName_def)
qed

theorem fixEncodingName_canonical_witness:
  "fixEncodingName ''utf16Le'' = ''UTF-16LE'' \<and> fixEncodingName ''UTF8'' = ''UTF-8'' \<and>
   fixEncodingName ''latin1'' = ''latin1'' \<and> fixEncodingName ''UTF-8'' = ''UTF-8''"
proof -
  have c: "canonical ''utf16Le'' = ''UTF-16LE''" "canonical ''UTF8'' = ''UTF-8''"
    "canonical ''latin1'' = ''latin1''"
    by (simp_all add: canonical_def utf_aliases_def same_nocase_def tolower_c_def)
  have "CHR 0x00 \<notin> set ''utf16Le''" by simp
  from fixEncodingName_canonical [OF this] c(1)
  have one: "fixEncodingName ''utf16Le'' = ''UTF-16LE''" by (simp only:)
  have "CHR 0x00 \<notin> set ''UTF8''" by simp
  from fixEncodingName_canonical [OF this] c(2)
  have two: "fixEncodingName ''UTF8'' = ''UTF-8''" by (simp only:)
  have "CHR 0x00 \<notin> set ''latin1''" by simp
  from fixEncodingName_canonical [OF this] c(3)
  have three: "fixEncodingName ''latin1'' = ''latin1''" by (simp only:)
  have "CHR 0x00 \<notin> set ''UTF-8''" by simp
  from fixEncodingName_canonical [OF this, THEN conjunct2]
  have four: "fixEncodingName ''UTF-8'' = ''UTF-8''" by (simp add: char_at_def)
  from one two three four show ?thesis by (intro conjI)
qed


section \<open>Opening a converter\<close>

lemma iconv_open_result:
  assumes "env_iconv_open E tocode fromcode = (h, e, c)"
  shows "iconv_open E w tocode fromcode =
           (h, if h = - 1 then w\<lparr>calls := calls w @ [Iconv_open tocode fromcode h], errno := e\<rparr>
               else w\<lparr>calls := calls w @ [Iconv_open tocode fromcode h],
                      descr := (descr w)(h := c)\<rparr>)"
  using assms by (simp add: iconv_open_def Let_def)

lemma fix_examples:
  "fixEncodingName ''utf8'' = ''UTF-8''" "fixEncodingName ''utf16le'' = ''UTF-16LE''"
  "fixEncodingName ''latin1'' = ''latin1''"
proof -
  have c: "canonical ''utf8'' = ''UTF-8''" "canonical ''utf16le'' = ''UTF-16LE''"
    "canonical ''latin1'' = ''latin1''"
    by (simp_all add: canonical_def utf_aliases_def same_nocase_def tolower_c_def)
  have "CHR 0x00 \<notin> set ''utf8''" by simp
  from fix_four_or_more [OF this] c(1) show "fixEncodingName ''utf8'' = ''UTF-8''"
    by (simp only:)
  have "CHR 0x00 \<notin> set ''utf16le''" by simp
  from fix_four_or_more [OF this] c(2) show "fixEncodingName ''utf16le'' = ''UTF-16LE''"
    by (simp only:)
  have "CHR 0x00 \<notin> set ''latin1''" by simp
  from fix_four_or_more [OF this] c(3) show "fixEncodingName ''latin1'' = ''latin1''"
    by (simp only:)
qed

text \<open>
  C7. Whatever the two names, \<^verbatim>\<open>Iconv::New\<close>, called with the source encoding first
  and the target encoding second, makes one call of \<^verbatim>\<open>iconv_open\<close>, and its first
  argument is the fixed-up target name and its second the fixed-up source name: the
  order of the public arguments is the reverse of the primitive's, and the code passes
  them across as they are. The object it returns holds the descriptor that call gave.
\<close>

theorem New_opens_target_then_source:
  "calls (snd (Iconv_New E w sourceEncoding targetEncoding)) =
     calls w @ [Iconv_open (fixEncodingName targetEncoding) (fixEncodingName sourceEncoding)
                 (fst (env_iconv_open E (fixEncodingName targetEncoding)
                        (fixEncodingName sourceEncoding)))] \<and>
   (case fst (Iconv_New E w sourceEncoding targetEncoding) of
      Inr obj \<Rightarrow> conv' obj = fst (env_iconv_open E (fixEncodingName targetEncoding)
                                  (fixEncodingName sourceEncoding))
    | Inl x \<Rightarrow> fst (env_iconv_open E (fixEncodingName targetEncoding)
                     (fixEncodingName sourceEncoding)) = - 1)"
proof -
  obtain h e c where
    o: "env_iconv_open E (fixEncodingName targetEncoding) (fixEncodingName sourceEncoding) = (h, e, c)"
    by (cases "env_iconv_open E (fixEncodingName targetEncoding) (fixEncodingName sourceEncoding)")
  show ?thesis
    by (simp add: Iconv_New_def iconv_open_result [OF o] o)
qed

theorem New_opens_target_then_source_witness:
  "calls (snd (Iconv_New (demo_env 100 []) world0 ''utf8'' ''utf16le'')) =
     [Iconv_open ''UTF-16LE'' ''UTF-8'' 1] \<and>
   fst (Iconv_New (demo_env 100 []) world0 ''utf8'' ''utf16le'') = Inr \<lparr>conv' = 1\<rparr>"
proof -
  have o: "env_iconv_open (demo_env 100 [] :: unit env) ''UTF-16LE'' ''UTF-8'' = (1, 0, ())"
    by (simp add: demo_env_def)
  from New_opens_target_then_source [of "demo_env 100 []" world0 "''utf8''" "''utf16le''"]
  have "calls (snd (Iconv_New (demo_env 100 []) world0 ''utf8'' ''utf16le'')) =
          [Iconv_open ''UTF-16LE'' ''UTF-8'' 1]"
    by (simp only: fix_examples o fst_conv) (simp add: world0_def)
  moreover have "fst (Iconv_New (demo_env 100 []) world0 ''utf8'' ''utf16le'') = Inr \<lparr>conv' = 1\<rparr>"
    by (simp add: Iconv_New_def fix_examples iconv_open_result [OF o])
  ultimately show ?thesis ..
qed

text \<open>
  C9. When \<^verbatim>\<open>iconv_open\<close> returns \<^verbatim>\<open>(iconv_t) -1\<close> for the pair of names,
  \<^verbatim>\<open>Iconv::New\<close> throws: the exception is the one a caller reads as an unsupported
  conversion, it carries the \<^verbatim>\<open>errno\<close> the primitive left, and no object is returned
  and no descriptor installed.
\<close>

theorem open_failure_is_unsupported_conversion:
  assumes "env_iconv_open E (fixEncodingName targetEncoding) (fixEncodingName sourceEncoding) = (h, e, c)"
    and "h = - 1"
  shows "\<exists>x w'. Iconv_New E w sourceEncoding targetEncoding = (Inl x, w') \<and>
           x = ErrnoException e ''iconv_open'' ''Conversion not supported.'' \<and>
           surfaced x = UnsupportedConversion e \<and>
           errno w' = e \<and> descr w' = descr w \<and> live w' = live w"
  using assms by (simp add: Iconv_New_def iconv_open_result [OF assms(1)])

theorem open_failure_is_unsupported_conversion_witness:
  "\<exists>w'. Iconv_New (demo_env 100 []) world0 ''latin1'' ''utf8'' =
           (Inl (ErrnoException EINVAL ''iconv_open'' ''Conversion not supported.''), w') \<and>
         surfaced (ErrnoException EINVAL ''iconv_open'' ''Conversion not supported.'') =
           UnsupportedConversion EINVAL \<and>
         errno w' = EINVAL \<and> calls w' = [Iconv_open ''UTF-8'' ''latin1'' (- 1)]"
proof -
  have o: "env_iconv_open (demo_env 100 [] :: unit env) (fixEncodingName ''utf8'')
             (fixEncodingName ''latin1'') = (- 1, EINVAL, ())"
    by (simp add: demo_env_def fix_examples)
  from open_failure_is_unsupported_conversion [OF o refl, of world0] obtain w' where
    n: "Iconv_New (demo_env 100 []) world0 ''latin1'' ''utf8'' =
          (Inl (ErrnoException EINVAL ''iconv_open'' ''Conversion not supported.''), w')"
    and s: "surfaced (ErrnoException EINVAL ''iconv_open'' ''Conversion not supported.'') =
          UnsupportedConversion EINVAL"
    and e: "errno w' = EINVAL"
    by blast
  from o have "calls (snd (Iconv_New (demo_env 100 []) world0 ''latin1'' ''utf8'')) =
      [Iconv_open ''UTF-8'' ''latin1'' (- 1)]"
    by (simp add: Iconv_New_def fix_examples iconv_open_result [OF o [unfolded fix_examples]] world0_def)
  with n have "calls w' = [Iconv_open ''UTF-8'' ''latin1'' (- 1)]"
    by simp
  with n s e show ?thesis by blast
qed

section \<open>A string argument\<close>

text \<open>
  C10. Given a string, the method \<^verbatim>\<open>convert\<close> hands the conversion the bytes of
  \<^verbatim>\<open>String::Utf8Value\<close>, the UTF-8 form of the string, whatever the descriptor of the
  object and whatever encoding it was opened to read: the call does what a call with a
  \<^verbatim>\<open>Buffer\<close> of those bytes does, and when it returns, the first call of the
  primitive that was given input was given exactly those bytes.
\<close>

theorem string_argument_is_fed_as_utf8:
  "Iconv_Convert_args E w self (JsString str) =
     Iconv_Convert_args E w self (JsBuffer (env_Utf8Value E str)) \<and>
   Iconv_Convert_args E w self (JsString str) =
     Iconv_Convert E w self (env_Utf8Value E str) (of_nat (length (env_Utf8Value E str))) \<and>
   (\<forall>res w'. Iconv_Convert_args E w self (JsString str) = Some (res, w') \<longrightarrow>
      (\<exists>r0 e0 q rest. calls w' = calls w @ Iconv None None r0 e0 # Realloc 0 16 q # rest \<and>
         (q = 0 \<or>
          (\<exists>r e rest'.
             rest = Iconv (Some (env_Utf8Value E str, of_nat (length (env_Utf8Value E str))))
                      (Some (q, 16)) r e # rest'))))"
proof (intro conjI allI impI)
  let ?bytes = "env_Utf8Value E str"
  show "Iconv_Convert_args E w self (JsString str) = Iconv_Convert_args E w self (JsBuffer ?bytes)"
    by (simp add: Iconv_Convert_args_def Let_def)
  show a: "Iconv_Convert_args E w self (JsString str) =
      Iconv_Convert E w self ?bytes (of_nat (length ?bytes))"
    by (simp add: Iconv_Convert_args_def Let_def)
  fix res w'
  assume "Iconv_Convert_args E w self (JsString str) = Some (res, w')"
  with a have "Iconv_Convert E w self ?bytes (of_nat (length ?bytes)) = Some (res, w')"
    by simp
  then obtain rc s' where
    "convert E w (conv' self) ?bytes (of_nat (length ?bytes)) = Some (rc, w', s')"
    by (auto simp: Iconv_Convert_def split: option.splits if_splits)
  from convert_first_pass [OF this] obtain r0 e0 q rest where
    k: "calls w' = calls w @ Iconv None None r0 e0 # Realloc 0 16 q # rest"
    and p: "if q = 0 then rc = 0
            else \<exists>r e rest'. rest = Iconv (Some (?bytes, of_nat (length ?bytes))) (Some (q, 16)) r e # rest'"
    by blast
  from p have "q = 0 \<or> (\<exists>r e rest'.
      rest = Iconv (Some (?bytes, of_nat (length ?bytes))) (Some (q, 16)) r e # rest')"
    by (cases "q = 0") simp_all
  with k have "calls w' = calls w @ Iconv None None r0 e0 # Realloc 0 16 q # rest \<and>
      (q = 0 \<or> (\<exists>r e rest'.
         rest = Iconv (Some (?bytes, of_nat (length ?bytes))) (Some (q, 16)) r e # rest'))"
    by (intro conjI)
  then show "\<exists>r0 e0 q rest. calls w' = calls w @ Iconv None None r0 e0 # Realloc 0 16 q # rest \<and>
      (q = 0 \<or> (\<exists>r e rest'.
         rest = Iconv (Some (?bytes, of_nat (length ?bytes))) (Some (q, 16)) r e # rest'))"
    by (intro exI)
qed

theorem string_argument_is_fed_as_utf8_witness:
  "Iconv_Convert_args (demo_env 100 []) world0 \<lparr>conv' = 1\<rparr> (JsString [0x68, 0x69]) =
     Iconv_Convert_args (demo_env 100 []) world0 \<lparr>conv' = 1\<rparr> (JsBuffer [0x68, 0x69]) \<and>
   (\<exists>w'. Iconv_Convert_args (demo_env 100 []) world0 \<lparr>conv' = 1\<rparr> (JsString [0x68, 0x69]) =
            Some (Inr (Buffer 20480 2), w') \<and>
          calls w' = [Iconv None None 0 0, Realloc 0 16 8192,
                      Iconv (Some ([0x68, 0x69], 2)) (Some (8192, 16)) 0 0,
                      Iconv None (Some (8194, 14)) 0 0, Realloc 8192 2 20480])"
proof -
  have u: "env_Utf8Value (demo_env 100 [] :: unit env) [0x68, 0x69] = [0x68, 0x69]"
    by (simp add: demo_env_def)
  have run: "\<exists>w'. Iconv_Convert (demo_env 100 []) world0 \<lparr>conv' = 1\<rparr> [0x68, 0x69] 2 =
            Some (Inr (Buffer 20480 2), w') \<and>
          calls w' = [Iconv None None 0 0, Realloc 0 16 8192,
                      Iconv (Some ([0x68, 0x69], 2)) (Some (8192, 16)) 0 0,
                      Iconv None (Some (8194, 14)) 0 0, Realloc 8192 2 20480]"
    by (simp add: Iconv_Convert_def run_defs)
  note t = string_argument_is_fed_as_utf8
    [of "demo_env 100 []" world0 "\<lparr>conv' = 1\<rparr>" "[0x68, 0x69]", unfolded u]
  from t have one: "Iconv_Convert_args (demo_env 100 []) world0 \<lparr>conv' = 1\<rparr> (JsString [0x68, 0x69]) =
     Iconv_Convert_args (demo_env 100 []) world0 \<lparr>conv' = 1\<rparr> (JsBuffer [0x68, 0x69])"
    by (rule conjunct1)
  from t [THEN conjunct2, THEN conjunct1]
  have "Iconv_Convert_args (demo_env 100 []) world0 \<lparr>conv' = 1\<rparr> (JsString [0x68, 0x69]) =
     Iconv_Convert (demo_env 100 []) world0 \<lparr>conv' = 1\<rparr> [0x68, 0x69] 2"
    by simp
  with run have "\<exists>w'. Iconv_Convert_args (demo_env 100 []) world0 \<lparr>conv' = 1\<rparr> (JsString [0x68, 0x69]) =
            Some (Inr (Buffer 20480 2), w') \<and>
          calls w' = [Iconv None None 0 0, Realloc 0 16 8192,
                      Iconv (Some ([0x68, 0x69], 2)) (Some (8192, 16)) 0 0,
                      Iconv None (Some (8194, 14)) 0 0, Realloc 8192 2 20480]"
    by simp
  with one show ?thesis ..
qed


end
